theory Spec2Isabelle
  imports Main "HOL-Library.Word"
begin

section \<open>JavaScript values and strings\<close>

text \<open>
  A JavaScript string is a sequence of 16-bit code units; indexing, \<^verbatim>\<open>slice\<close>,
  \<^verbatim>\<open>indexOf\<close> and regular expressions without the \<^verbatim>\<open>u\<close> flag all work on code
  units, so a string is modelled as a list of 16-bit words. \<open>cu\<close> and \<open>js\<close> write
  ASCII literals.
\<close>

type_synonym code_unit = "16 word"
type_synonym jsstring = "code_unit list"

abbreviation cu :: "char \<Rightarrow> code_unit" where
  "cu c \<equiv> of_char c"

abbreviation js :: "string \<Rightarrow> jsstring" where
  "js s \<equiv> map of_char s"

text \<open>
  The values the entry points can be handed. \<open>JSNumber\<close> stands for an integer-valued
  number (the code only asks numbers for their \<^verbatim>\<open>typeof\<close> and truthiness);
  \<open>JSObject\<close> stands for a plain object or array without methods of its own, such as
  a decoded JSON value, whose representation \<open>'v\<close> is left open.
\<close>

datatype 'v jsval =
    JSUndefined
  | JSNull
  | JSBoolean bool
  | JSNumber int
  | JSString jsstring
  | JSObject 'v

text \<open>The exceptions the code can raise.\<close>

datatype js_error = TypeError

text \<open>\<^verbatim>\<open>content[i]\<close>: \<open>None\<close> is \<^verbatim>\<open>undefined\<close>, the value of an index out of range.\<close>

definition char_at :: "jsstring \<Rightarrow> nat \<Rightarrow> code_unit option" where
  "char_at content i = (if i < length content then Some (content ! i) else None)"

text \<open>
  \<^verbatim>\<open>content.slice(start, end)\<close> for indices that are not negative: an end beyond the
  length is clamped, and an end before the start gives the empty string.
\<close>

definition slice :: "jsstring \<Rightarrow> nat \<Rightarrow> nat \<Rightarrow> jsstring" where
  "slice content start end = take (end - start) (drop start content)"

text \<open>
  The code units \<^verbatim>\<open>String.prototype.trim\<close> strips and \<^verbatim>\<open>\s\<close> matches: ECMAScript's
  WhiteSpace and LineTerminator.
\<close>

definition is_space :: "code_unit \<Rightarrow> bool" where
  "is_space c =
     (c = 0x09 \<or> c = 0x0A \<or> c = 0x0B \<or> c = 0x0C \<or> c = 0x0D \<or> c = 0x20 \<or> c = 0xA0
      \<or> c = 0x1680 \<or> (0x2000 \<le> c \<and> c \<le> 0x200A) \<or> c = 0x2028 \<or> c = 0x2029
      \<or> c = 0x202F \<or> c = 0x205F \<or> c = 0x3000 \<or> c = 0xFEFF)"

definition trim :: "jsstring \<Rightarrow> jsstring" where
  "trim s = rev (dropWhile is_space (rev (dropWhile is_space s)))"

text \<open>
  \<^verbatim>\<open>toLowerCase\<close> on the letters A to Z. The tag engine applies it to a tag name only,
  which is made of ASCII word characters, colons and hyphens, and there it is all that
  \<^verbatim>\<open>String.prototype.toLowerCase\<close> does.
\<close>

definition toLowerCase :: "jsstring \<Rightarrow> jsstring" where
  "toLowerCase s = map (\<lambda>c. if 0x41 \<le> c \<and> c \<le> 0x5A then c + 0x20 else c) s"

section \<open>The Result record\<close>

datatype status = Success | Check | Fail

text \<open>
  The object both engines return. Its \<^verbatim>\<open>data\<close> and \<^verbatim>\<open>raw\<close> fields hold any JavaScript
  value; \<open>JSNull\<close> is the initial \<^verbatim>\<open>null\<close>, a field that is absent.
\<close>

record 'v result =
  status :: status
  comments :: jsstring
  data :: "'v jsval"
  raw :: "'v jsval"

section \<open>The tag engine (src/snipByTag.js)\<close>

text \<open>The character class \<^verbatim>\<open>/[\w:-]/\<close>.\<close>

definition is_name_char :: "code_unit \<Rightarrow> bool" where
  "is_name_char c =
     ((0x41 \<le> c \<and> c \<le> 0x5A) \<or> (0x61 \<le> c \<and> c \<le> 0x7A) \<or> (0x30 \<le> c \<and> c \<le> 0x39)
      \<or> c = cu CHR ''_'' \<or> c = cu CHR '':'' \<or> c = cu CHR ''-'')"

text \<open>The loop that reads the tag name: the index of the first code unit past it.\<close>

function read_tag_name :: "jsstring \<Rightarrow> nat \<Rightarrow> nat" where
  "read_tag_name content i =
     (if i < length content \<and> is_name_char (content ! i)
      then read_tag_name content (i + 1)
      else i)"
  by pat_completeness auto
termination
  by (relation "measure (\<lambda>(content, i). length content - i)") auto

declare read_tag_name.simps [simp del]

text \<open>
  The loop that skips attributes up to the tag's end: the index it stops at, and
  \<^verbatim>\<open>isSelfClosing\<close>. It stops on \<^verbatim>\<open>></\<close> (not consumed), at the end of the text, or just
  past an explicit \<^verbatim>\<open>/></\<close>.
\<close>

function skip_attributes :: "jsstring \<Rightarrow> nat \<Rightarrow> nat \<times> bool" where
  "skip_attributes content i =
     (if i < length content \<and> content ! i \<noteq> cu CHR ''>'' then
        (if content ! i = cu CHR ''/'' \<and> char_at content (i + 1) = Some (cu CHR ''>'')
         then (i + 2, True)
         else skip_attributes content (i + 1))
      else (i, False))"
  by pat_completeness auto
termination
  by (relation "measure (\<lambda>(content, i). length content - i)") auto

declare skip_attributes.simps [simp del]

text \<open>
  One tag, from the \<^verbatim>\<open><\<close> at index \<open>i\<close> to the index after it: the straight-line part
  of the loop body, from \<^verbatim>\<open>i++ // move past '<'\<close> to \<^verbatim>\<open>i++ // consume '>'\<close>. \<open>nameEnd\<close> is
  \<^verbatim>\<open>i\<close> when the tag name has been read, \<open>tagEnd\<close> is \<^verbatim>\<open>i\<close> when the tag is processed.
\<close>

record tag_scan =
  isClosing :: bool
  tagNameRaw :: jsstring
  nameEnd :: nat
  isSelfClosing :: bool
  tagEnd :: nat

definition scan_tag :: "jsstring \<Rightarrow> nat \<Rightarrow> tag_scan" where
  "scan_tag content i =
     (let i1 = i + 1;
          closing = (char_at content i1 = Some (cu CHR ''/''));
          tagNameStart = (if closing then i1 + 1 else i1);
          i2 = read_tag_name content tagNameStart;
          (i3, selfClosing) = skip_attributes content i2;
          i4 = (if char_at content i3 = Some (cu CHR ''>'') then i3 + 1 else i3)
      in \<lparr> isClosing = closing,
           tagNameRaw = trim (slice content tagNameStart i2),
           nameEnd = i2,
           isSelfClosing = selfClosing,
           tagEnd = i4 \<rparr>)"

text \<open>
  The ways out of the main loop, each with the variables its \<^verbatim>\<open>return\<close> reads.
  \<^verbatim>\<open>snippetStart\<close> is \<open>None\<close> for \<^verbatim>\<open>-1\<close>; the stack is a list with its top (the element
  \<^verbatim>\<open>pop\<close> returns) first; the popped \<^verbatim>\<open>last\<close> is \<open>None\<close> when the stack was empty and
  \<^verbatim>\<open>pop\<close> returned \<^verbatim>\<open>undefined\<close>.
\<close>

datatype tag_exit =
    InvalidTagName "nat option" nat
  | MismatchedClosing "jsstring option" jsstring "nat option" nat
  | AllClosed nat nat
  | EndOfInput "jsstring list" "nat option"

lemma read_tag_name_ge: "i \<le> read_tag_name content i"
proof (induction content i rule: read_tag_name.induct)
  case (1 content i)
  show ?case
  proof (cases "i < length content \<and> is_name_char (content ! i)")
    case True
    with "1.IH" have "i + 1 \<le> read_tag_name content (i + 1)" by simp
    moreover from True have "read_tag_name content i = read_tag_name content (i + 1)"
      by (subst read_tag_name.simps) simp
    ultimately show ?thesis by simp
  next
    case False
    then have "read_tag_name content i = i"
      by (subst read_tag_name.simps) auto
    then show ?thesis by simp
  qed
qed

lemma skip_attributes_ge: "i \<le> fst (skip_attributes content i)"
proof (induction content i rule: skip_attributes.induct)
  case (1 content i)
  show ?case
  proof (cases "i < length content \<and> content ! i \<noteq> cu CHR ''>''")
    case False
    then have "skip_attributes content i = (i, False)"
      by (subst skip_attributes.simps) auto
    then show ?thesis by simp
  next
    case True
    show ?thesis
    proof (cases "content ! i = cu CHR ''/'' \<and> char_at content (i + 1) = Some (cu CHR ''>'')")
      case slash: True
      with True have "skip_attributes content i = (i + 2, True)"
        by (subst skip_attributes.simps) simp
      then show ?thesis by simp
    next
      case noslash: False
      with True have eq: "skip_attributes content i = skip_attributes content (i + 1)"
        by (subst skip_attributes.simps) auto
      from "1.IH" True noslash have "i + 1 \<le> fst (skip_attributes content (i + 1))"
        by blast
      with eq show ?thesis by simp
    qed
  qed
qed

lemma scan_tag_advances: "i < tagEnd (scan_tag content i)"
proof -
  have step: "i < fst (skip_attributes content (read_tag_name content s))" if "i < s" for s
  proof -
    have "s \<le> read_tag_name content s" by (rule read_tag_name_ge)
    moreover have "read_tag_name content s
        \<le> fst (skip_attributes content (read_tag_name content s))"
      by (rule skip_attributes_ge)
    ultimately show ?thesis using that by linarith
  qed
  have "i < fst (skip_attributes content (read_tag_name content (i + 1 + 1)))"
    and "i < fst (skip_attributes content (read_tag_name content (i + 1)))"
    by (rule step, simp)+
  then show ?thesis
    by (auto simp: scan_tag_def Let_def split_beta)
qed

text \<open>
  The main loop of \<^verbatim>\<open>snipByTag\<close>, from index \<open>i\<close> with the given stack and snippet
  start.
\<close>

function tag_loop :: "bool \<Rightarrow> jsstring \<Rightarrow> nat \<Rightarrow> jsstring list \<Rightarrow> nat option \<Rightarrow> tag_exit" where
  "tag_loop caseSensitive content i stack snippetStart =
     (if i < length content then
        (if content ! i \<noteq> cu CHR ''<'' then
           tag_loop caseSensitive content (i + 1) stack snippetStart
         else
           (let start = (case snippetStart of None \<Rightarrow> i | Some s \<Rightarrow> s);
                t = scan_tag content i
            in if tagNameRaw t = [] then InvalidTagName (Some start) (nameEnd t)
               else
                 (let tagName = (if caseSensitive then tagNameRaw t
                                 else toLowerCase (tagNameRaw t))
                  in if isClosing t then
                       (case stack of
                          [] \<Rightarrow> MismatchedClosing None tagName (Some start) (tagEnd t)
                        | popped # rest \<Rightarrow>
                            if popped \<noteq> tagName
                            then MismatchedClosing (Some popped) tagName (Some start) (tagEnd t)
                            else if rest = [] then AllClosed start (tagEnd t)
                            else tag_loop caseSensitive content (tagEnd t) rest (Some start))
                     else
                       (let stack' = (if isSelfClosing t then stack else tagName # stack)
                        in if stack' = [] then AllClosed start (tagEnd t)
                           else tag_loop caseSensitive content (tagEnd t) stack' (Some start)))))
      else EndOfInput stack snippetStart)"
  by pat_completeness auto
termination
proof (relation "measure (\<lambda>(caseSensitive, content, i, stack, snippetStart). length content - i)")
  show "wf (measure (\<lambda>(caseSensitive, content, i, stack, snippetStart). length content - i))"
    by simp
next
  fix caseSensitive :: bool and content :: jsstring and i :: nat
    and stack :: "jsstring list" and snippetStart :: "nat option"
  assume "i < length content"
  then show "((caseSensitive, content, i + 1, stack, snippetStart),
              (caseSensitive, content, i, stack, snippetStart))
             \<in> measure (\<lambda>(caseSensitive, content, i, stack, snippetStart). length content - i)"
    by simp
next
  fix caseSensitive :: bool and content :: jsstring and i :: nat and t :: tag_scan
    and rest :: "jsstring list" and start :: nat
    and stack :: "jsstring list" and snippetStart :: "nat option"
  assume "i < length content" and "t = scan_tag content i"
  then show "((caseSensitive, content, tagEnd t, rest, Some start),
              (caseSensitive, content, i, stack, snippetStart))
             \<in> measure (\<lambda>(caseSensitive, content, i, stack, snippetStart). length content - i)"
    using scan_tag_advances [of i content] by simp
next
  fix caseSensitive :: bool and content :: jsstring and i :: nat and t :: tag_scan
    and stack' :: "jsstring list" and start :: nat
    and stack :: "jsstring list" and snippetStart :: "nat option"
  assume "i < length content" and "t = scan_tag content i"
  then show "((caseSensitive, content, tagEnd t, stack', Some start),
              (caseSensitive, content, i, stack, snippetStart))
             \<in> measure (\<lambda>(caseSensitive, content, i, stack, snippetStart). length content - i)"
    using scan_tag_advances [of i content] by simp
qed

declare tag_loop.simps [simp del]

text \<open>
  \<^verbatim>\<open>snipByTag(content, { caseSensitive })\<close>. The option is passed as a boolean, \<open>False\<close>
  being its default.
\<close>

definition snipByTag :: "'v jsval \<Rightarrow> bool \<Rightarrow> 'v result" where
  "snipByTag content caseSensitive =
     (let invalid = \<lparr> status = Fail,
                        comments = js ''Invalid input: content must be a non-empty string.'',
                        data = JSNull, raw = JSNull \<rparr>
      in case content of
           JSString text \<Rightarrow>
             (if text = [] then invalid
              else
                (case tag_loop caseSensitive text 0 [] None of
                   InvalidTagName snippetStart i \<Rightarrow>
                     \<lparr> status = Fail, comments = js ''Invalid tag name.'', data = JSNull,
                       raw = (case snippetStart of
                                Some s \<Rightarrow> JSString (slice text s i) | None \<Rightarrow> JSNull) \<rparr>
                 | MismatchedClosing popped tagName snippetStart i \<Rightarrow>
                     \<lparr> status = Fail,
                       comments = js ''Mismatched closing tag: expected </''
                         @ (case popped of Some name \<Rightarrow> name | None \<Rightarrow> js ''undefined'')
                         @ js ''> but found </'' @ tagName @ js ''>.'',
                       data = JSNull,
                       raw = (case snippetStart of
                                Some s \<Rightarrow> JSString (slice text s i) | None \<Rightarrow> JSNull) \<rparr>
                 | AllClosed s i \<Rightarrow>
                     \<lparr> status = Success, comments = js ''Valid tag structure found.'',
                       data = JSString (slice text s i), raw = JSNull \<rparr>
                 | EndOfInput stack snippetStart \<Rightarrow>
                     (case stack of
                        popped # rest \<Rightarrow>
                          \<lparr> status = Fail,
                            comments = js ''Unclosed tag <'' @ popped @ js ''>.'',
                            data = JSNull,
                            raw = (case snippetStart of
                                     Some s \<Rightarrow> JSString (drop s text) | None \<Rightarrow> JSNull) \<rparr>
                      | [] \<Rightarrow>
                          (case snippetStart of
                             Some s \<Rightarrow>
                               \<lparr> status = Fail, comments = js ''Incomplete tag structure.'',
                                 data = JSNull, raw = JSString (drop s text) \<rparr>
                           | None \<Rightarrow>
                               \<lparr> status = Fail, comments = js ''No tags found.'',
                                 data = JSNull, raw = JSNull \<rparr>))))
         | _ \<Rightarrow> invalid)"

section \<open>The text clean-up of the JSON engine\<close>

text \<open>
  \<^verbatim>\<open>sanitizeContent\<close> is a chain of \<^verbatim>\<open>replace\<close> calls with global regular expressions and
  a final \<^verbatim>\<open>trim\<close>. A global \<^verbatim>\<open>replace\<close> walks the text from left to right, removes each
  match and goes on behind it; each regular expression below is written as that walk.
\<close>

definition is_quote :: "code_unit \<Rightarrow> bool" where
  "is_quote c = (c = 0x27 \<or> c = 0x22)"

text \<open>
  \<^verbatim>\<open>/['"]\s*\+\s*['"]?/\<close> tried at the head of the text: the rest of the text behind the
  match, when there is one. No white space is a plus sign, so the greedy \<^verbatim>\<open>\s*\<close> never
  has to give a code unit back.
\<close>

definition match_concat :: "jsstring \<Rightarrow> jsstring option" where
  "match_concat s =
     (case s of
        [] \<Rightarrow> None
      | c # cs \<Rightarrow>
          if is_quote c then
            (case dropWhile is_space cs of
               [] \<Rightarrow> None
             | p # rest \<Rightarrow>
                 if p = cu CHR ''+'' then
                   (case dropWhile is_space rest of
                      [] \<Rightarrow> Some []
                    | q # rest' \<Rightarrow> if is_quote q then Some rest' else Some (q # rest'))
                 else None)
          else None)"

lemma dropWhile_Cons_shorter: "dropWhile P xs = y # ys \<Longrightarrow> length ys < length xs"
  using length_dropWhile_le [of P xs] by simp

lemma dropWhile_Nil_or_shorter: "length (dropWhile P xs) \<le> length xs"
  by (rule length_dropWhile_le)

lemma match_concat_shorter: "match_concat s = Some r \<Longrightarrow> length r < length s"
proof -
  assume m: "match_concat s = Some r"
  then obtain c cs where s: "s = c # cs"
    by (cases s) (auto simp: match_concat_def)
  from m s obtain p rest where d: "dropWhile is_space cs = p # rest"
    unfolding match_concat_def by (auto split: list.splits if_splits)
  from d have l1: "length rest < length cs" by (rule dropWhile_Cons_shorter)
  have "length r \<le> length rest"
  proof (cases "dropWhile is_space rest")
    case Nil
    with m s d show ?thesis
      unfolding match_concat_def
      by (auto split: if_splits simp del: dropWhile_eq_Nil_conv)
  next
    case (Cons q rest')
    then have "length rest' < length rest" by (rule dropWhile_Cons_shorter)
    moreover from Cons have "length (q # rest') \<le> length rest"
      using dropWhile_Nil_or_shorter [of is_space rest] by simp
    ultimately show ?thesis using m s d Cons
      unfolding match_concat_def
      by (auto split: if_splits simp: dropWhile_Nil_or_shorter)
  qed
  with l1 s show ?thesis by simp
qed

text \<open>\<^verbatim>\<open>.replace(/['"]\s*\+\s*['"]?/g, "")\<close>: the string-concatenation artifacts.\<close>

function strip_concat :: "jsstring \<Rightarrow> jsstring" where
  "strip_concat s =
     (case s of
        [] \<Rightarrow> []
      | c # cs \<Rightarrow>
          (case match_concat s of
             Some rest \<Rightarrow> strip_concat rest
           | None \<Rightarrow> c # strip_concat cs))"
  by pat_completeness auto
termination
  by (relation "measure length") (auto dest: match_concat_shorter)

declare strip_concat.simps [simp del]

text \<open>
  The code units after which \<^verbatim>\<open>^\<close> matches and before which \<^verbatim>\<open>$\<close> matches under the
  \<^verbatim>\<open>m\<close> flag.
\<close>

definition is_line_terminator :: "code_unit \<Rightarrow> bool" where
  "is_line_terminator c = (c = 0x0A \<or> c = 0x0D \<or> c = 0x2028 \<or> c = 0x2029)"

text \<open>
  \<^verbatim>\<open>.replace(/^```json|```$/gm, "")\<close>: the fence with its language at the start of a
  line, and a fence at the end of a line. \<open>lineStart\<close> says that the walk stands at the
  start of the text or behind a line terminator.
\<close>

fun strip_fences :: "bool \<Rightarrow> jsstring \<Rightarrow> jsstring" where
  "strip_fences lineStart [] = []"
| "strip_fences lineStart (c # cs) =
     (if lineStart \<and> take 7 (c # cs) = js ''```json'' then strip_fences False (drop 6 cs)
      else if take 3 (c # cs) = js ''```''
              \<and> (case drop 2 cs of [] \<Rightarrow> True | d # rest \<Rightarrow> is_line_terminator d)
           then strip_fences False (drop 2 cs)
      else c # strip_fences (is_line_terminator c) cs)"

text \<open>
  \<^verbatim>\<open>.replace(/^['"]|['"]$/g, "")\<close>, without the \<^verbatim>\<open>m\<close> flag: a quote that is the first
  code unit of the text, and a quote that is its last.
\<close>

definition strip_outer_quotes :: "jsstring \<Rightarrow> jsstring" where
  "strip_outer_quotes s =
     (let s1 = (case s of [] \<Rightarrow> [] | c # cs \<Rightarrow> if is_quote c then cs else s)
      in if s1 \<noteq> [] \<and> is_quote (last s1) then butlast s1 else s1)"

text \<open>\<^verbatim>\<open>.replace(/`/g, "")\<close>.\<close>

definition strip_backticks :: "jsstring \<Rightarrow> jsstring" where
  "strip_backticks s = filter (\<lambda>c. c \<noteq> cu CHR ''`'') s"

text \<open>\<^verbatim>\<open>.replace(/\\n/g, "\n")\<close>: a backslash followed by the letter n becomes a line feed.\<close>

fun unescape_newlines :: "jsstring \<Rightarrow> jsstring" where
  "unescape_newlines (b # n # rest) =
     (if b = 0x5C \<and> n = cu CHR ''n'' then 0x0A # unescape_newlines rest
      else b # unescape_newlines (n # rest))"
| "unescape_newlines s = s"

text \<open>
  \<^verbatim>\<open>sanitizeContent\<close> of unnamed/part_000. It calls \<^verbatim>\<open>content.replace\<close>, which only a
  string has: any other argument raises a TypeError.
\<close>

definition sanitizeContent :: "'v jsval \<Rightarrow> js_error + jsstring" where
  "sanitizeContent content =
     (case content of
        JSString s \<Rightarrow>
          Inr (trim (unescape_newlines (strip_backticks (strip_outer_quotes
                 (strip_fences True (strip_concat s))))))
      | _ \<Rightarrow> Inl TypeError)"

text \<open>\<^verbatim>\<open>sanitizeContent\<close> of src/snipJson.js: the first two replacements and the trim.\<close>

definition sanitizeContent_src :: "'v jsval \<Rightarrow> js_error + jsstring" where
  "sanitizeContent_src content =
     (case content of
        JSString s \<Rightarrow> Inr (trim (strip_fences True (strip_concat s)))
      | _ \<Rightarrow> Inl TypeError)"

section \<open>The JSON engine (unnamed/part_000)\<close>

text \<open>
  The repository holds two copies of \<^verbatim>\<open>snipJson\<close>: the one in unnamed/part_000, which
  the examples' expected output (\<^verbatim>\<open>'Bracket mismatch detected.'\<close>) belongs to, and the one
  in src/snipJson.js. Both are modelled; this section is the first.

  \<^verbatim>\<open>JSON.parse\<close> is the platform's decoder. The engine takes it as the parameter
  \<open>parse\<close>, which returns the decoded object or array (\<open>Inr\<close>) or the message of the
  exception that \<^verbatim>\<open>parseJsonSafely\<close> catches (\<open>Inl\<close>).
\<close>

text \<open>The table \<^verbatim>\<open>PAIRS\<close>, with its keys \<^verbatim>\<open>OPENING\<close> and its values \<^verbatim>\<open>CLOSING\<close>.\<close>

definition PAIRS :: "code_unit \<Rightarrow> code_unit option" where
  "PAIRS c = (if c = cu CHR ''{'' then Some (cu CHR ''}'')
              else if c = cu CHR ''['' then Some (cu CHR '']'')
              else None)"

definition OPENING :: "code_unit list" where
  "OPENING = [cu CHR ''{'', cu CHR ''['']"

definition CLOSING :: "code_unit list" where
  "CLOSING = [cu CHR ''}'', cu CHR '']'']"

text \<open>
  \<^verbatim>\<open>content.indexOf(c)\<close> and \<^verbatim>\<open>content.lastIndexOf(c)\<close> for a one-unit string \<open>c\<close>;
  \<open>None\<close> is \<^verbatim>\<open>-1\<close>.
\<close>

definition indexOf :: "jsstring \<Rightarrow> code_unit \<Rightarrow> nat option" where
  "indexOf content c =
     (if c \<in> set content then Some (length (takeWhile (\<lambda>x. x \<noteq> c) content)) else None)"

definition lastIndexOf :: "jsstring \<Rightarrow> code_unit \<Rightarrow> nat option" where
  "lastIndexOf content c =
     (if c \<in> set content
      then Some (length content - 1 - length (takeWhile (\<lambda>x. x \<noteq> c) (rev content)))
      else None)"

text \<open>Step 1: the candidate start.\<close>

definition locate_start :: "jsstring \<Rightarrow> nat option" where
  "locate_start content =
     (let firstObject = indexOf content (cu CHR ''{'');
          firstArray = indexOf content (cu CHR ''['')
      in case firstObject of
           None \<Rightarrow> firstArray
         | Some ob \<Rightarrow> (case firstArray of None \<Rightarrow> Some ob | Some ar \<Rightarrow> Some (min ob ar)))"

text \<open>
  Step 2: the fast path, the decoded value when it succeeds. \<open>start\<close> is the index of
  an opening delimiter, so \<^verbatim>\<open>PAIRS[content[start]]\<close> is defined; the \<open>None\<close> case of the
  table is never taken.
\<close>

definition fast_path :: "(jsstring \<Rightarrow> jsstring + 'v) \<Rightarrow> jsstring \<Rightarrow> nat \<Rightarrow> 'v option" where
  "fast_path parse content start =
     (case PAIRS (content ! start) of
        None \<Rightarrow> None
      | Some expectedClosing \<Rightarrow>
          (case lastIndexOf content expectedClosing of
             None \<Rightarrow> None
           | Some lastClosing \<Rightarrow>
               if lastClosing > start then
                 (case parse (slice content start (lastClosing + 1)) of
                    Inr v \<Rightarrow> Some v
                  | Inl msg \<Rightarrow> None)
               else None))"

text \<open>
  Step 3: the structural scan from index \<open>i\<close>. The stack has its top first. The ways
  out are the mismatch \<^verbatim>\<open>return\<close> at index \<open>i\<close>, the \<^verbatim>\<open>break\<close> with \<^verbatim>\<open>end = i\<close>, and the
  end of the text with the stack that is left.
\<close>

datatype scan_exit = Mismatch nat | Balanced nat | Unclosed "code_unit list"

function scan :: "jsstring \<Rightarrow> nat \<Rightarrow> code_unit list \<Rightarrow> scan_exit" where
  "scan content i stack =
     (if i < length content then
        (let char = content ! i
         in if char \<in> set OPENING then scan content (i + 1) (char # stack)
            else if char \<in> set CLOSING then
              (case stack of
                 [] \<Rightarrow> Mismatch i
               | popped # rest \<Rightarrow>
                   if PAIRS popped \<noteq> Some char then Mismatch i
                   else if rest = [] then Balanced i
                   else scan content (i + 1) rest)
            else scan content (i + 1) stack)
      else Unclosed stack)"
  by pat_completeness auto
termination
  by (relation "measure (\<lambda>(content, i, stack). length content - i)") auto

declare scan.simps [simp del]

text \<open>
  \<^verbatim>\<open>PAIRS[stack.pop()]\<close> appended to a string: the closer, or the text of
  \<^verbatim>\<open>undefined\<close> for a code unit the table does not have.
\<close>

definition closer_text :: "code_unit \<Rightarrow> jsstring" where
  "closer_text popped = (case PAIRS popped of Some c \<Rightarrow> [c] | None \<Rightarrow> js ''undefined'')"

text \<open>Steps 1 to 4 on the sanitized text.\<close>

definition extract_json :: "(jsstring \<Rightarrow> jsstring + 'v) \<Rightarrow> jsstring \<Rightarrow> 'v result" where
  "extract_json parse content =
     (case locate_start content of
        None \<Rightarrow>
          \<lparr> status = Fail, comments = js ''No JSON structure found.'',
            data = JSNull, raw = JSNull \<rparr>
      | Some start \<Rightarrow>
          (case fast_path parse content start of
             Some v \<Rightarrow>
               \<lparr> status = Success, comments = js ''JSON successfully extracted and parsed.'',
                 data = JSObject v, raw = JSNull \<rparr>
           | None \<Rightarrow>
               (case scan content start [] of
                  Mismatch i \<Rightarrow>
                    \<lparr> status = Fail, comments = js ''Bracket mismatch detected.'',
                      data = JSNull, raw = JSString (slice content start (i + 1)) \<rparr>
                | Unclosed stack \<Rightarrow>
                    (case stack of
                       [popped] \<Rightarrow>
                         (let repaired = drop start content @ closer_text popped
                          in case parse repaired of
                               Inr v \<Rightarrow>
                                 \<lparr> status = Check,
                                   comments =
                                     js ''One missing closing bracket auto-added. Please verify.'',
                                   data = JSObject v, raw = JSNull \<rparr>
                             | Inl msg \<Rightarrow>
                                 \<lparr> status = Fail,
                                   comments =
                                     js ''Auto-closure attempted but parsing failed: '' @ msg,
                                   data = JSNull, raw = JSString repaired \<rparr>)
                     | _ \<Rightarrow>
                         \<lparr> status = Fail, comments = js ''Unbalanced JSON structure.'',
                           data = JSNull, raw = JSString (drop start content) \<rparr>)
                | Balanced end \<Rightarrow>
                    (let finalCandidate = slice content start (end + 1)
                     in case parse finalCandidate of
                          Inr v \<Rightarrow>
                            \<lparr> status = Success,
                              comments = js ''JSON successfully extracted and parsed.'',
                              data = JSObject v, raw = JSNull \<rparr>
                        | Inl msg \<Rightarrow>
                            \<lparr> status = Check,
                              comments = js ''Structurally valid JSON failed to parse: '' @ msg,
                              data = JSNull, raw = JSString finalCandidate \<rparr>))))"

text \<open>\<^verbatim>\<open>snipJson(content)\<close> of unnamed/part_000.\<close>

definition snipJson :: "(jsstring \<Rightarrow> jsstring + 'v) \<Rightarrow> 'v jsval \<Rightarrow> js_error + 'v result" where
  "snipJson parse content =
     (let invalid = \<lparr> status = Fail,
                        comments = js ''Invalid input: content must be a non-empty string.'',
                        data = JSNull, raw = JSNull \<rparr>
      in case content of
           JSString text \<Rightarrow>
             (if text = [] then Inr invalid
              else (case sanitizeContent content of
                      Inl e \<Rightarrow> Inl e
                    | Inr sanitized \<Rightarrow> Inr (extract_json parse sanitized)))
         | _ \<Rightarrow> Inr invalid)"

section \<open>The JSON engine (src/snipJson.js)\<close>

text \<open>
  The loop of the copy in src/snipJson.js. It has no \<^verbatim>\<open>break\<close>: it ends on a mismatch
  or at the end of the text. \<^verbatim>\<open>jsonEnd\<close> is the index last visited, \<^verbatim>\<open>-1\<close> before the
  first.
\<close>

datatype scan_src_exit = Mismatch_src int | Finished "code_unit list" int

function scan_src :: "jsstring \<Rightarrow> nat \<Rightarrow> code_unit list \<Rightarrow> int \<Rightarrow> scan_src_exit" where
  "scan_src content i stack jsonEnd =
     (if i < length content then
        (let jsonEnd' = int i;
             char = content ! i;
             stack' = (if char \<in> set OPENING then char # stack else stack)
         in if char \<in> set CLOSING then
              (case stack' of
                 [] \<Rightarrow> Mismatch_src jsonEnd'
               | popped # rest \<Rightarrow>
                   if PAIRS popped \<noteq> Some char then Mismatch_src jsonEnd'
                   else scan_src content (i + 1) rest jsonEnd')
            else scan_src content (i + 1) stack' jsonEnd')
      else Finished stack jsonEnd)"
  by pat_completeness auto
termination
  by (relation "measure (\<lambda>(content, i, stack, jsonEnd). length content - i)") auto

declare scan_src.simps [simp del]

text \<open>
  Everything behind the input check, on the sanitized text. \<^verbatim>\<open>startingBrace\<close> is \<open>None\<close>
  for \<^verbatim>\<open>Infinity\<close>, and then \<^verbatim>\<open>endingBrace\<close> is not looked at. With \<^verbatim>\<open>endingBrace = -1\<close>
  the first slice is \<^verbatim>\<open>content.slice(startingBrace, 0)\<close>, the empty string.
\<close>

definition extract_json_src :: "(jsstring \<Rightarrow> jsstring + 'v) \<Rightarrow> jsstring \<Rightarrow> 'v result" where
  "extract_json_src parse content =
     (let none_found = \<lparr> status = Fail, comments = js ''No valid JSON structure found.'',
                           data = JSNull, raw = JSNull \<rparr>
      in case locate_start content of
           None \<Rightarrow> none_found
         | Some startingBrace \<Rightarrow>
             (let endingBrace =
                    (case PAIRS (content ! startingBrace) of
                       None \<Rightarrow> None
                     | Some closing \<Rightarrow> lastIndexOf content closing)
              in if (case endingBrace of None \<Rightarrow> False | Some e \<Rightarrow> e \<le> startingBrace)
                 then none_found
                 else
                   (let slice1 = (case endingBrace of
                                    None \<Rightarrow> []
                                  | Some e \<Rightarrow> slice content startingBrace (e + 1))
                    in case parse slice1 of
                         Inr v \<Rightarrow>
                           \<lparr> status = Success,
                             comments = js ''JSON successfully extracted and parsed.'',
                             data = JSObject v, raw = JSNull \<rparr>
                       | Inl msg1 \<Rightarrow>
                           (case scan_src content startingBrace [] (- 1) of
                              Mismatch_src jsonEnd \<Rightarrow>
                                \<lparr> status = Fail, comments = js ''Bracket mismatch'',
                                  data = JSNull,
                                  raw = JSString
                                          (slice content startingBrace (nat (jsonEnd + 1))) \<rparr>
                            | Finished stack jsonEnd \<Rightarrow>
                                (let candidate = slice content startingBrace (nat (jsonEnd + 1))
                                 in if length stack > 1 then
                                      \<lparr> status = Fail, comments = js ''Bracket mismatch'',
                                        data = JSNull, raw = JSString candidate \<rparr>
                                    else
                                      (case stack of
                                         popped # rest \<Rightarrow>
                                           (let dataParsed = candidate @ closer_text popped
                                            in case parse dataParsed of
                                                 Inr v \<Rightarrow>
                                                   \<lparr> status = Check,
                                                     comments =
                                                       js ''Added missing closing brace. ''
                                                       @ js ''Parsing passed'',
                                                     data = JSObject v, raw = JSNull \<rparr>
                                               | Inl msg \<Rightarrow>
                                                   \<lparr> status = Fail,
                                                     comments =
                                                       js ''Added missing closing brace. ''
                                                       @ js ''But parsing failed. Error: '' @ msg,
                                                     data = JSNull, raw = JSString dataParsed \<rparr>)
                                       | [] \<Rightarrow>
                                           (case parse candidate of
                                              Inr v \<Rightarrow>
                                                \<lparr> status = Success,
                                                  comments =
                                                    js ''JSON successfully extracted and parsed.'',
                                                  data = JSObject v, raw = JSNull \<rparr>
                                            | Inl msg \<Rightarrow>
                                                \<lparr> status = Check,
                                                  comments =
                                                    js ''Extracted candidate JSON passed bracket validation but failed to parse. Check result.raw. Error : ''
                                                    @ msg,
                                                  data = JSNull,
                                                  raw = JSString candidate \<rparr>)))))))"

text \<open>
  \<^verbatim>\<open>snipJson(content)\<close> of src/snipJson.js: \<^verbatim>\<open>sanitizeContent(content)\<close> is its first
  statement, ahead of the input check.
\<close>

definition snipJson_src :: "(jsstring \<Rightarrow> jsstring + 'v) \<Rightarrow> 'v jsval \<Rightarrow> js_error + 'v result" where
  "snipJson_src parse content =
     (case sanitizeContent_src content of
        Inl e \<Rightarrow> Inl e
      | Inr sanitized \<Rightarrow>
          if sanitized = [] then
            Inr \<lparr> status = Fail, comments = js ''Invalid input: content must be a string.'',
                  data = JSNull, raw = JSNull \<rparr>
          else Inr (extract_json_src parse sanitized))"

section \<open>The dispatcher (src/index.js)\<close>

text \<open>
  The second argument of \<^verbatim>\<open>snipSmart\<close>: a value without a \<^verbatim>\<open>format\<close> property (a string,
  or \<^verbatim>\<open>undefined\<close> when the argument is left out, or any other primitive), or an object
  with its \<^verbatim>\<open>format\<close> and \<^verbatim>\<open>caseSensitive\<close> properties (\<open>JSUndefined\<close> for one it does
  not have).
\<close>

datatype 'v options = OptValue "'v jsval" | OptConfig "'v jsval" "'v jsval"

definition truthy :: "'v jsval \<Rightarrow> bool" where
  "truthy v =
     (case v of
        JSUndefined \<Rightarrow> False
      | JSNull \<Rightarrow> False
      | JSBoolean b \<Rightarrow> b
      | JSNumber n \<Rightarrow> n \<noteq> 0
      | JSString s \<Rightarrow> s \<noteq> []
      | JSObject ob \<Rightarrow> True)"

text \<open>Decimal digits of a natural number.\<close>

function show_nat :: "nat \<Rightarrow> jsstring" where
  "show_nat n = (if n < 10 then [0x30 + of_nat n]
                 else show_nat (n div 10) @ [0x30 + of_nat (n mod 10)])"
  by pat_completeness auto
termination
  by (relation "measure id") auto

declare show_nat.simps [simp del]

text \<open>
  The string conversion of a template literal, for the values modelled: a number is an
  integer that prints in plain decimal notation, an object is a plain one.
\<close>

definition ToString :: "'v jsval \<Rightarrow> jsstring" where
  "ToString v =
     (case v of
        JSUndefined \<Rightarrow> js ''undefined''
      | JSNull \<Rightarrow> js ''null''
      | JSBoolean b \<Rightarrow> (if b then js ''true'' else js ''false'')
      | JSNumber n \<Rightarrow> (if n < 0 then cu CHR ''-'' # show_nat (nat (- n)) else show_nat (nat n))
      | JSString s \<Rightarrow> s
      | JSObject ob \<Rightarrow> js ''[object Object]'')"

text \<open>
  \<^verbatim>\<open>typeof options === "string" ? options : options?.format || "json"\<close>, with
  \<^verbatim>\<open>options = "json"\<close> for an argument left out.
\<close>

definition format_of :: "'v options \<Rightarrow> 'v jsval" where
  "format_of options =
     (case options of
        OptValue v \<Rightarrow> (case v of JSString s \<Rightarrow> JSString s | _ \<Rightarrow> JSString (js ''json''))
      | OptConfig format caseSensitive \<Rightarrow>
          if truthy format then format else JSString (js ''json''))"

text \<open>
  \<^verbatim>\<open>snipSmart(content, options)\<close>. The module \<^verbatim>\<open>./snipJson.js\<close> it imports is the
  parameter \<open>engine\<close>, since the repository holds two copies of it. The \<^verbatim>\<open>switch\<close>
  compares with \<^verbatim>\<open>===\<close>, so only a string selects an engine.
\<close>

definition snipSmart ::
  "('v jsval \<Rightarrow> js_error + 'v result) \<Rightarrow> 'v jsval \<Rightarrow> 'v options \<Rightarrow> js_error + 'v result"
where
  "snipSmart engine content options =
     (let format = format_of options
      in if format = JSString (js ''json'') then engine content
         else if format = JSString (js ''tag'') then Inr (snipByTag content False)
         else Inr \<lparr> status = Fail,
                    comments = js ''Invalid format '' @ [0x27] @ ToString format @ [0x27]
                               @ js ''. Expected '' @ [0x27] @ js ''json'' @ [0x27]
                               @ js '' or '' @ [0x27] @ js ''tag'' @ [0x27] @ js ''.'',
                    data = JSNull, raw = content \<rparr>)"

section \<open>A JSON decoder for the examples\<close>

text \<open>
  The engines are stated for every decoder. The examples need one, and use
  \<open>JSON_parse\<close>: it decodes the JSON texts made of objects, arrays, strings without
  escape sequences, integers without fraction or exponent (up to \<open>2^53\<close>, and not
  \<^verbatim>\<open>-0\<close>), \<^verbatim>\<open>true\<close>, \<^verbatim>\<open>false\<close> and \<^verbatim>\<open>null\<close>. It reports an error for every other text, so
  for every text that \<^verbatim>\<open>JSON.parse\<close> rejects. Object members are kept in the order of
  the text. The wording of the error message is the platform's own; a fixed one stands
  for it.
\<close>

datatype json =
    JNull
  | JBool bool
  | JNum int
  | JStr jsstring
  | JArr "json list"
  | JObj "(jsstring \<times> json) list"

definition is_json_space :: "code_unit \<Rightarrow> bool" where
  "is_json_space c = (c = 0x20 \<or> c = 0x09 \<or> c = 0x0A \<or> c = 0x0D)"

definition is_digit :: "code_unit \<Rightarrow> bool" where
  "is_digit c = (0x30 \<le> c \<and> c \<le> 0x39)"

text \<open>Behind an opening quote: the string, and the text behind its closing quote.\<close>

fun parse_string :: "jsstring \<Rightarrow> (jsstring \<times> jsstring) option" where
  "parse_string [] = None"
| "parse_string (c # cs) =
     (if c = 0x22 then Some ([], cs)
      else if c = 0x5C \<or> c < 0x20 then None
      else (case parse_string cs of
              None \<Rightarrow> None
            | Some (str, rest) \<Rightarrow> Some (c # str, rest)))"

definition parse_number :: "jsstring \<Rightarrow> (int \<times> jsstring) option" where
  "parse_number s =
     (let negative = (case s of [] \<Rightarrow> False | c # cs \<Rightarrow> c = cu CHR ''-'');
          s1 = (if negative then tl s else s);
          digits = takeWhile is_digit s1;
          rest = dropWhile is_digit s1;
          n = foldl (\<lambda>a d. 10 * a + int (unat d - 48)) 0 digits
      in if digits = [] then None
         else if length digits > 1 \<and> hd digits = 0x30 then None
         else if (case rest of
                    [] \<Rightarrow> False
                  | c # cs \<Rightarrow> c = cu CHR ''.'' \<or> c = cu CHR ''e'' \<or> c = cu CHR ''E'') then None
         else if n > 9007199254740992 \<or> (negative \<and> n = 0) then None
         else Some (if negative then - n else n, rest))"

text \<open>
  Recursive descent, with a bound on the depth of the recursion that the length of the
  text never reaches. \<open>parse_elements\<close> reads the elements of an array that is not
  empty, up to its \<^verbatim>\<open>]\<close>; \<open>parse_members\<close> the members of such an object, up to its \<^verbatim>\<open>}\<close>.
\<close>

fun parse_value :: "nat \<Rightarrow> jsstring \<Rightarrow> (json \<times> jsstring) option"
  and parse_elements :: "nat \<Rightarrow> jsstring \<Rightarrow> (json list \<times> jsstring) option"
  and parse_members :: "nat \<Rightarrow> jsstring \<Rightarrow> ((jsstring \<times> json) list \<times> jsstring) option"
where
  "parse_value 0 s = None"
| "parse_value (Suc n) s =
     (case dropWhile is_json_space s of
        [] \<Rightarrow> None
      | c # cs \<Rightarrow>
          if c = 0x22 then
            (case parse_string cs of
               None \<Rightarrow> None
             | Some (str, rest) \<Rightarrow> Some (JStr str, rest))
          else if c = cu CHR ''['' then
            (case dropWhile is_json_space cs of
               [] \<Rightarrow> None
             | d # ds \<Rightarrow>
                 if d = cu CHR '']'' then Some (JArr [], ds)
                 else (case parse_elements n cs of
                         None \<Rightarrow> None
                       | Some (vs, rest) \<Rightarrow> Some (JArr vs, rest)))
          else if c = cu CHR ''{'' then
            (case dropWhile is_json_space cs of
               [] \<Rightarrow> None
             | d # ds \<Rightarrow>
                 if d = cu CHR ''}'' then Some (JObj [], ds)
                 else (case parse_members n cs of
                         None \<Rightarrow> None
                       | Some (ms, rest) \<Rightarrow> Some (JObj ms, rest)))
          else if take 4 (c # cs) = js ''true'' then Some (JBool True, drop 3 cs)
          else if take 5 (c # cs) = js ''false'' then Some (JBool False, drop 4 cs)
          else if take 4 (c # cs) = js ''null'' then Some (JNull, drop 3 cs)
          else (case parse_number (c # cs) of
                  None \<Rightarrow> None
                | Some (n, rest) \<Rightarrow> Some (JNum n, rest)))"
| "parse_elements 0 s = None"
| "parse_elements (Suc n) s =
     (case parse_value n s of
        None \<Rightarrow> None
      | Some (v, rest) \<Rightarrow>
          (case dropWhile is_json_space rest of
             [] \<Rightarrow> None
           | d # ds \<Rightarrow>
               if d = cu CHR '','' then
                 (case parse_elements n ds of
                    None \<Rightarrow> None
                  | Some (vs, rest') \<Rightarrow> Some (v # vs, rest'))
               else if d = cu CHR '']'' then Some ([v], ds)
               else None))"
| "parse_members 0 s = None"
| "parse_members (Suc n) s =
     (case dropWhile is_json_space s of
        [] \<Rightarrow> None
      | q # cs \<Rightarrow>
          if q \<noteq> 0x22 then None
          else
            (case parse_string cs of
               None \<Rightarrow> None
             | Some (key, rest) \<Rightarrow>
                 (case dropWhile is_json_space rest of
                    [] \<Rightarrow> None
                  | colon # rest2 \<Rightarrow>
                      if colon \<noteq> cu CHR '':'' then None
                      else
                        (case parse_value n rest2 of
                           None \<Rightarrow> None
                         | Some (v, rest3) \<Rightarrow>
                             (case dropWhile is_json_space rest3 of
                                [] \<Rightarrow> None
                              | d # ds \<Rightarrow>
                                  if d = cu CHR '','' then
                                    (case parse_members n ds of
                                       None \<Rightarrow> None
                                     | Some (ms, rest') \<Rightarrow> Some ((key, v) # ms, rest'))
                                  else if d = cu CHR ''}'' then Some ([(key, v)], ds)
                                  else None)))))"

definition JSON_parse :: "jsstring \<Rightarrow> jsstring + json" where
  "JSON_parse text =
     (case parse_value (Suc (length text)) text of
        None \<Rightarrow> Inl (js ''Unexpected token or end of JSON input'')
      | Some (v, rest) \<Rightarrow>
          if dropWhile is_json_space rest = [] then Inr v
          else Inl (js ''Unexpected token or end of JSON input''))"

subsection \<open>The encoder\<close>

text \<open>
  \<^verbatim>\<open>JSON.stringify\<close> without indentation, for the examples: the encoder for the values
  that \<open>JSON_parse\<close> returns. Members are written in the order held. A string is
  written between double quotes, a double quote and a backslash in it behind a
  backslash; the strings of the examples hold no control character and no lone
  surrogate, which the platform would write as escape sequences too.
\<close>

definition quote_string :: "jsstring \<Rightarrow> jsstring" where
  "quote_string s =
     0x22 # concat (map (\<lambda>c. if c = 0x22 \<or> c = 0x5C then [0x5C, c] else [c]) s) @ [0x22]"

fun JSON_stringify :: "json \<Rightarrow> jsstring"
  and stringify_elements :: "json list \<Rightarrow> jsstring"
  and stringify_members :: "(jsstring \<times> json) list \<Rightarrow> jsstring"
where
  "JSON_stringify JNull = js ''null''"
| "JSON_stringify (JBool b) = (if b then js ''true'' else js ''false'')"
| "JSON_stringify (JNum n) =
     (if n < 0 then cu CHR ''-'' # show_nat (nat (- n)) else show_nat (nat n))"
| "JSON_stringify (JStr s) = quote_string s"
| "JSON_stringify (JArr vs) = cu CHR ''['' # stringify_elements vs @ [cu CHR '']'']"
| "JSON_stringify (JObj ms) = cu CHR ''{'' # stringify_members ms @ [cu CHR ''}'']"
| "stringify_elements [] = []"
| "stringify_elements [v] = JSON_stringify v"
| "stringify_elements (v # w # vs) =
     JSON_stringify v @ cu CHR '','' # stringify_elements (w # vs)"
| "stringify_members [] = []"
| "stringify_members [(k, v)] = quote_string k @ cu CHR '':'' # JSON_stringify v"
| "stringify_members ((k, v) # m # ms) =
     quote_string k @ cu CHR '':'' # JSON_stringify v @ cu CHR '','' # stringify_members (m # ms)"

section \<open>Auxiliary notions for the proofs\<close>

text \<open>The tag name after the case folding that the configuration asks for.\<close>

definition tag_name_of :: "bool \<Rightarrow> tag_scan \<Rightarrow> jsstring" where
  "tag_name_of cs t = (if cs then tagNameRaw t else toLowerCase (tagNameRaw t))"

text \<open>The snippet start that a way out of the tag loop carries.\<close>

definition exit_start :: "tag_exit \<Rightarrow> nat option" where
  "exit_start x =
     (case x of
        InvalidTagName ss i \<Rightarrow> ss
      | MismatchedClosing popped name ss i \<Rightarrow> ss
      | AllClosed s i \<Rightarrow> Some s
      | EndOfInput stack ss \<Rightarrow> ss)"

text \<open>The index of the first \<^verbatim>\<open><\<close> at or behind index \<open>i\<close> (the length, when there is none).\<close>

definition first_lt :: "jsstring \<Rightarrow> nat \<Rightarrow> nat" where
  "first_lt content i = i + length (takeWhile (\<lambda>c. c \<noteq> cu CHR ''<'') (drop i content))"

text \<open>
  The inputs that get as far as the structural scan: not empty, sanitized to \<open>content\<close>,
  with a candidate start, and with a fast path that does not succeed.
\<close>

definition reaches_scan ::
  "(jsstring \<Rightarrow> jsstring + 'v) \<Rightarrow> jsstring \<Rightarrow> jsstring \<Rightarrow> nat \<Rightarrow> bool" where
  "reaches_scan parse input content start =
     (input \<noteq> [] \<and> sanitizeContent (JSString input :: 'v jsval) = Inr content
      \<and> locate_start content = Some start \<and> fast_path parse content start = None)"

text \<open>
  \<^verbatim>\<open>endingBrace\<close> and the first slice of src/snipJson.js, for a \<^verbatim>\<open>startingBrace\<close> that is an
  index.
\<close>

definition ending_brace :: "jsstring \<Rightarrow> nat \<Rightarrow> nat option" where
  "ending_brace content startingBrace =
     (case PAIRS (content ! startingBrace) of
        None \<Rightarrow> None
      | Some closing \<Rightarrow> lastIndexOf content closing)"

definition first_slice :: "jsstring \<Rightarrow> nat \<Rightarrow> jsstring" where
  "first_slice content startingBrace =
     (case ending_brace content startingBrace of
        None \<Rightarrow> []
      | Some e \<Rightarrow> slice content startingBrace (e + 1))"

text \<open>
  The copy in src/snipJson.js gets as far as its loop: the input is a string whose
  sanitized text \<open>content\<close> is not empty and has its first opening delimiter at
  \<open>start\<close>, no last closer stands at or before it, and the first slice does not decode.
\<close>

definition reaches_scan_src ::
  "(jsstring \<Rightarrow> jsstring + 'v) \<Rightarrow> jsstring \<Rightarrow> jsstring \<Rightarrow> nat \<Rightarrow> bool" where
  "reaches_scan_src parse input content start =
     (sanitizeContent_src (JSString input :: 'v jsval) = Inr content \<and> content \<noteq> []
      \<and> locate_start content = Some start
      \<and> (case ending_brace content start of None \<Rightarrow> True | Some e \<Rightarrow> start < e)
      \<and> isl (parse (first_slice content start)))"

text \<open>
  The rule of the Result record: a Success carries no \<^verbatim>\<open>raw\<close>, a Fail carries no \<^verbatim>\<open>data\<close>,
  and a Check carries either no \<^verbatim>\<open>data\<close>, or \<^verbatim>\<open>data\<close> without \<^verbatim>\<open>raw\<close> under the comment
  \<open>repairNote\<close> of a repair that decoded.
\<close>

definition data_raw_discipline :: "jsstring \<Rightarrow> 'v result \<Rightarrow> bool" where
  "data_raw_discipline repairNote r =
     (case status r of
        Success \<Rightarrow> raw r = JSNull
      | Check \<Rightarrow> data r = JSNull \<or> (raw r = JSNull \<and> comments r = repairNote)
      | Fail \<Rightarrow> data r = JSNull)"

text \<open>A way out of the tag loop with every index moved \<open>n\<close> places to the right.\<close>

definition shift_exit :: "nat \<Rightarrow> tag_exit \<Rightarrow> tag_exit" where
  "shift_exit n x =
     (case x of
        InvalidTagName ss i \<Rightarrow> InvalidTagName (map_option (\<lambda>s. n + s) ss) (n + i)
      | MismatchedClosing popped name ss i \<Rightarrow>
          MismatchedClosing popped name (map_option (\<lambda>s. n + s) ss) (n + i)
      | AllClosed s i \<Rightarrow> AllClosed (n + s) (n + i)
      | EndOfInput stack ss \<Rightarrow> EndOfInput stack (map_option (\<lambda>s. n + s) ss))"

text \<open>
  A text that the clean-up has nothing to do with: it is not empty, it starts and ends
  with a code unit that is neither white space nor a quote, and it holds no plus sign,
  no backtick and no backslash.
\<close>

definition plain :: "jsstring \<Rightarrow> bool" where
  "plain p = (p \<noteq> [] \<and> \<not> is_space (hd p) \<and> \<not> is_quote (hd p)
              \<and> \<not> is_space (last p) \<and> \<not> is_quote (last p)
              \<and> cu CHR ''+'' \<notin> set p \<and> cu CHR ''`'' \<notin> set p \<and> 0x5C \<notin> set p)"

section \<open>The tag loop, step by step\<close>

lemma tag_loop_end: "\<not> i < length content \<Longrightarrow> tag_loop cs content i stack ss = EndOfInput stack ss"
  by (subst tag_loop.simps) simp

lemma tag_loop_skip:
  "i < length content \<Longrightarrow> content ! i \<noteq> cu CHR ''<'' \<Longrightarrow>
   tag_loop cs content i stack ss = tag_loop cs content (i + 1) stack ss"
  by (subst tag_loop.simps) simp

lemma tag_loop_tag:
  "i < length content \<Longrightarrow> content ! i = cu CHR ''<'' \<Longrightarrow>
   tag_loop cs content i stack ss =
     (let start = (case ss of None \<Rightarrow> i | Some s \<Rightarrow> s); t = scan_tag content i
      in if tagNameRaw t = [] then InvalidTagName (Some start) (nameEnd t)
         else if isClosing t then
           (case stack of
              [] \<Rightarrow> MismatchedClosing None (tag_name_of cs t) (Some start) (tagEnd t)
            | popped # rest \<Rightarrow>
                if popped \<noteq> tag_name_of cs t
                then MismatchedClosing (Some popped) (tag_name_of cs t) (Some start) (tagEnd t)
                else if rest = [] then AllClosed start (tagEnd t)
                else tag_loop cs content (tagEnd t) rest (Some start))
         else if isSelfClosing t then
           (if stack = [] then AllClosed start (tagEnd t)
            else tag_loop cs content (tagEnd t) stack (Some start))
         else tag_loop cs content (tagEnd t) (tag_name_of cs t # stack) (Some start))"
  by (subst tag_loop.simps) (auto simp: Let_def tag_name_of_def split: list.splits)

lemma tag_loop_end_invariant:
  "tag_loop cs content i stack ss = EndOfInput stack' ss' \<Longrightarrow>
   (stack = []) = (ss = None) \<Longrightarrow> (stack' = []) = (ss' = None)"
proof (induction "length content - i" arbitrary: i stack ss rule: less_induct)
  case less
  show ?case
  proof (cases "i < length content")
    case False
    with less.prems show ?thesis by (simp add: tag_loop_end)
  next
    case inside: True
    show ?thesis
    proof (cases "content ! i = cu CHR ''<''")
      case False
      with inside less.prems
      have "tag_loop cs content (i + 1) stack ss = EndOfInput stack' ss'"
        by (simp add: tag_loop_skip)
      moreover from inside have "length content - (i + 1) < length content - i" by simp
      ultimately show ?thesis using less.hyps less.prems(2) by blast
    next
      case True
      define t where "t = scan_tag content i"
      define start where "start = (case ss of None \<Rightarrow> i | Some s \<Rightarrow> s)"
      have adv: "length content - tagEnd t < length content - i"
        using scan_tag_advances [of i content] inside by (simp add: t_def)
      from less.prems(1) inside True
      obtain st where "tag_loop cs content (tagEnd t) st (Some start) = EndOfInput stack' ss'"
        and "st \<noteq> []"
        by (auto simp: tag_loop_tag Let_def t_def [symmetric] start_def [symmetric]
                 split: if_splits list.splits)
      then show ?thesis
        using less.hyps [OF adv, of st "Some start"] by simp
    qed
  qed
qed


lemma tag_loop_keeps_start:
  "exit_start (tag_loop cs content i stack (Some s)) = Some s"
proof (induction "length content - i" arbitrary: i stack rule: less_induct)
  case less
  show ?case
  proof (cases "i < length content")
    case False
    then show ?thesis by (simp add: tag_loop_end exit_start_def)
  next
    case inside: True
    show ?thesis
    proof (cases "content ! i = cu CHR ''<''")
      case False
      from inside have "length content - (i + 1) < length content - i" by simp
      from less.hyps [OF this] False inside show ?thesis
        by (simp add: tag_loop_skip)
    next
      case True
      define t where "t = scan_tag content i"
      have adv: "length content - tagEnd t < length content - i"
        using scan_tag_advances [of i content] inside by (simp add: t_def)
      note IH = less.hyps [OF adv]
      from inside True show ?thesis
        by (auto simp: tag_loop_tag Let_def t_def [symmetric] exit_start_def [of "InvalidTagName _ _"]
                 exit_start_def [of "MismatchedClosing _ _ _ _"] exit_start_def [of "AllClosed _ _"] IH
                 split: list.splits)
    qed
  qed
qed

lemma first_lt_here: "i < length content \<Longrightarrow> content ! i = cu CHR ''<'' \<Longrightarrow> first_lt content i = i"
  by (simp add: first_lt_def Cons_nth_drop_Suc [symmetric])

lemma first_lt_skip:
  "i < length content \<Longrightarrow> content ! i \<noteq> cu CHR ''<'' \<Longrightarrow> first_lt content i = first_lt content (i + 1)"
  by (simp add: first_lt_def Cons_nth_drop_Suc [symmetric])

lemma tag_loop_finds_start:
  "exit_start (tag_loop cs content i stack None) = Some s \<Longrightarrow>
   s = first_lt content i \<and> s < length content \<and> content ! s = cu CHR ''<''"
proof (induction "length content - i" arbitrary: i rule: less_induct)
  case less
  show ?case
  proof (cases "i < length content")
    case False
    with less.prems show ?thesis by (simp add: tag_loop_end exit_start_def)
  next
    case inside: True
    show ?thesis
    proof (cases "content ! i = cu CHR ''<''")
      case False
      from inside have "length content - (i + 1) < length content - i" by simp
      moreover from False inside less.prems
      have "exit_start (tag_loop cs content (i + 1) stack None) = Some s"
        by (simp add: tag_loop_skip)
      ultimately have "s = first_lt content (i + 1) \<and> s < length content
          \<and> content ! s = cu CHR ''<''"
        by (rule less.hyps)
      moreover from inside False have "first_lt content i = first_lt content (i + 1)"
        by (rule first_lt_skip)
      ultimately show ?thesis by auto
    next
      case True
      define t where "t = scan_tag content i"
      have "exit_start (tag_loop cs content i stack None) = Some i"
        using inside True
        by (auto simp: tag_loop_tag Let_def t_def [symmetric] exit_start_def [of "InvalidTagName _ _"]
                 exit_start_def [of "MismatchedClosing _ _ _ _"] exit_start_def [of "AllClosed _ _"]
                 tag_loop_keeps_start
                 split: list.splits)
      with less.prems inside True show ?thesis by (simp add: first_lt_here)
    qed
  qed
qed

section \<open>Properties of the tag engine\<close>

text \<open>
  C9. At the end of the input, the state "a snippet start is recorded and the stack is
  empty" cannot be reached: the tag loop never leaves with an empty stack and a snippet
  start, and \<^verbatim>\<open>snipByTag\<close> never returns the comment "Incomplete tag structure.",
  whatever the input and the configuration.
\<close>

theorem incomplete_tag_structure_unreachable:
  "tag_loop caseSensitive text 0 [] None \<noteq> EndOfInput [] (Some s)
   \<and> comments (snipByTag content caseSensitive) \<noteq> js ''Incomplete tag structure.''"
proof
  have unreachable: "tag_loop caseSensitive input 0 [] None \<noteq> EndOfInput [] (Some k)"
    for input k
    using tag_loop_end_invariant [of caseSensitive input 0 "[]" None "[]" "Some k"] by auto
  then show "tag_loop caseSensitive text 0 [] None \<noteq> EndOfInput [] (Some s)" .
  show "comments (snipByTag content caseSensitive) \<noteq> js ''Incomplete tag structure.''"
  proof (cases content)
    case (JSString input)
    show ?thesis
    proof (cases "tag_loop caseSensitive input 0 [] None")
      case (EndOfInput stack snippetStart)
      with unreachable [of input] JSString show ?thesis
        by (cases stack; cases snippetStart) (auto simp add: snipByTag_def)
    qed (simp_all add: snipByTag_def JSString)
  qed (simp_all add: snipByTag_def)
qed

text \<open>
  C7. When the tag loop reaches the end of the input with a stack that is not empty,
  \<^verbatim>\<open>snipByTag\<close> returns Fail, its comment names the top of the stack (the tag opened
  last among those still open), \<^verbatim>\<open>data\<close> is absent and \<^verbatim>\<open>raw\<close> is the input from its
  first \<^verbatim>\<open><\<close> to its end.
\<close>

theorem unclosed_tag_reports_stack_top:
  assumes "tag_loop caseSensitive text 0 [] None = EndOfInput (name # rest) snippetStart"
  shows "snipByTag (JSString text) caseSensitive =
           \<lparr> status = Fail, comments = js ''Unclosed tag <'' @ name @ js ''>.'',
             data = JSNull,
             raw = JSString (dropWhile (\<lambda>c. c \<noteq> cu CHR ''<'') text) \<rparr>
         \<and> cu CHR ''<'' \<in> set text"
proof -
  from assms have nonempty: "text \<noteq> []"
    by (auto simp: tag_loop_end)
  from assms tag_loop_end_invariant [of caseSensitive "text" 0 "[]" None "name # rest" snippetStart]
  obtain s where s: "snippetStart = Some s" by auto
  with assms have "exit_start (tag_loop caseSensitive text 0 [] None) = Some s"
    by (simp add: exit_start_def)
  then have first: "s = first_lt text 0" and inside: "s < length text"
    and lt: "text ! s = cu CHR ''<''"
    using tag_loop_finds_start by blast+
  have "drop s text = dropWhile (\<lambda>c. c \<noteq> cu CHR ''<'') text"
    unfolding first first_lt_def by (simp add: dropWhile_eq_drop)
  moreover from inside lt have "cu CHR ''<'' \<in> set text"
    using nth_mem by metis
  ultimately show ?thesis
    using assms nonempty s by (simp add: snipByTag_def)
qed

theorem unclosed_tag_reports_stack_top_witness:
  "tag_loop False (js ''ab<section><P>text'') 0 [] None
     = EndOfInput [js ''p'', js ''section''] (Some 2)
   \<and> snipByTag (JSString (js ''ab<section><P>text'')) False =
       \<lparr> status = Fail, comments = js ''Unclosed tag <p>.'', data = JSNull,
         raw = (JSString (js ''<section><P>text'') :: unit jsval) \<rparr>"
proof -
  have h: "tag_loop False (js ''ab<section><P>text'') 0 [] None
             = EndOfInput [js ''p'', js ''section''] (Some 2)"
    by code_simp
  from unclosed_tag_reports_stack_top [OF h] h show ?thesis by simp
qed

section \<open>Properties of the dispatcher\<close>

text \<open>
  C10. The dispatcher never hands a configuration to the tag engine: with an options
  object whose \<^verbatim>\<open>format\<close> is "tag" (or with the string "tag"), \<^verbatim>\<open>snipSmart\<close> returns what
  \<^verbatim>\<open>snipByTag\<close> returns under its default configuration, whatever \<^verbatim>\<open>caseSensitive\<close> the
  object carries; tag names are compared without regard to case.
\<close>

theorem dispatcher_drops_tag_configuration:
  "snipSmart engine content (OptConfig (JSString (js ''tag'')) caseSensitive)
     = Inr (snipByTag content False)
   \<and> snipSmart engine content (OptValue (JSString (js ''tag'')))
     = Inr (snipByTag content False)"
  by (simp add: snipSmart_def format_of_def truthy_def)

theorem dispatcher_drops_tag_configuration_witness:
  "snipSmart (snipJson JSON_parse) (JSString (js ''<DIV></div>''))
       (OptConfig (JSString (js ''tag'')) (JSBoolean True))
     = Inr \<lparr> status = Success, comments = js ''Valid tag structure found.'',
             data = JSString (js ''<DIV></div>''), raw = JSNull \<rparr>
   \<and> status (snipByTag (JSString (js ''<DIV></div>'') :: json jsval) True) = Fail"
proof -
  have a: "snipByTag (JSString (js ''<DIV></div>'') :: json jsval) False
             = \<lparr> status = Success, comments = js ''Valid tag structure found.'',
                 data = JSString (js ''<DIV></div>''), raw = JSNull \<rparr>"
    by code_simp
  have b: "status (snipByTag (JSString (js ''<DIV></div>'') :: json jsval) True) = Fail"
    by code_simp
  from dispatcher_drops_tag_configuration
         [of "snipJson JSON_parse" "JSString (js ''<DIV></div>'')" "JSBoolean True"] a b
  show ?thesis by simp
qed

section \<open>The structural scan, step by step\<close>

lemma scan_end: "\<not> i < length content \<Longrightarrow> scan content i stack = Unclosed stack"
  by (subst scan.simps) simp

lemma scan_open:
  "i < length content \<Longrightarrow> content ! i \<in> set OPENING \<Longrightarrow>
   scan content i stack = scan content (i + 1) (content ! i # stack)"
  by (subst scan.simps) (simp add: Let_def)

lemma scan_other:
  "i < length content \<Longrightarrow> content ! i \<notin> set OPENING \<Longrightarrow> content ! i \<notin> set CLOSING \<Longrightarrow>
   scan content i stack = scan content (i + 1) stack"
  by (subst scan.simps) (simp add: Let_def)

lemma scan_close:
  "i < length content \<Longrightarrow> content ! i \<notin> set OPENING \<Longrightarrow> content ! i \<in> set CLOSING \<Longrightarrow>
   scan content i stack =
     (case stack of
        [] \<Rightarrow> Mismatch i
      | popped # rest \<Rightarrow>
          if PAIRS popped \<noteq> Some (content ! i) then Mismatch i
          else if rest = [] then Balanced i
          else scan content (i + 1) rest)"
  by (subst scan.simps) (simp add: Let_def)

lemma scan_cases:
  assumes "i < length content"
  obtains (opener) "content ! i \<in> set OPENING"
    | (closer) "content ! i \<notin> set OPENING" "content ! i \<in> set CLOSING"
    | (other) "content ! i \<notin> set OPENING" "content ! i \<notin> set CLOSING"
  by blast

lemma scan_Balanced_bounds:
  "scan content i stack = Balanced e \<Longrightarrow> i \<le> e \<and> e < length content"
proof (induction "length content - i" arbitrary: i stack rule: less_induct)
  case less
  show ?case
  proof (cases "i < length content")
    case False
    with less.prems show ?thesis by (simp add: scan_end)
  next
    case True
    then have dec: "length content - (i + 1) < length content - i" by simp
    from True show ?thesis
    proof (cases rule: scan_cases)
      case opener
      with True less.prems less.hyps [OF dec, of "content ! i # stack"] show ?thesis
        by (simp add: scan_open)
    next
      case other
      with True less.prems less.hyps [OF dec, of stack] show ?thesis
        by (simp add: scan_other)
    next
      case closer
      with True less.prems show ?thesis
        using less.hyps [OF dec]
        by (auto simp: scan_close split: list.splits if_splits) fastforce+
    qed
  qed
qed

lemma scan_Balanced_prefix:
  "scan content i stack = Balanced e \<Longrightarrow> scan (take (Suc e) content @ tail) i stack = Balanced e"
proof (induction "length content - i" arbitrary: i stack rule: less_induct)
  case less
  let ?c = "take (Suc e) content @ tail"
  from less.prems have b: "i \<le> e" "e < length content"
    using scan_Balanced_bounds by blast+
  then have inside: "i < length content" and inside': "i < length ?c" by simp_all
  from b have same: "?c ! i = content ! i" by (simp add: nth_append)
  from inside have dec: "length content - (i + 1) < length content - i" by simp
  from inside show ?case
  proof (cases rule: scan_cases)
    case opener
    with inside less.prems have "scan content (i + 1) (content ! i # stack) = Balanced e"
      by (simp add: scan_open)
    from less.hyps [OF dec this] opener inside' same show ?thesis
      by (simp add: scan_open)
  next
    case other
    with inside less.prems have "scan content (i + 1) stack = Balanced e"
      by (simp add: scan_other)
    from less.hyps [OF dec this] other inside' same show ?thesis
      by (simp add: scan_other)
  next
    case closer
    show ?thesis
    proof (cases stack)
      case Nil
      with closer inside less.prems show ?thesis by (simp add: scan_close)
    next
      case (Cons popped rest)
      show ?thesis
      proof (cases "PAIRS popped \<noteq> Some (content ! i)")
        case True
        with Cons closer inside less.prems show ?thesis by (simp add: scan_close)
      next
        case matching: False
        show ?thesis
        proof (cases "rest = []")
          case True
          with matching Cons closer inside less.prems have "e = i" by (simp add: scan_close)
          with True matching Cons closer inside' same show ?thesis by (simp add: scan_close)
        next
          case False
          with matching Cons closer inside less.prems
          have "scan content (i + 1) rest = Balanced e" by (simp add: scan_close)
          from less.hyps [OF dec this] False matching Cons closer inside' same show ?thesis
            by (simp add: scan_close)
        qed
      qed
    qed
  qed
qed

lemma scan_not_balanced_before:
  "scan content i stack = Balanced e \<Longrightarrow> stack \<noteq> [] \<or> content ! i \<in> set OPENING \<Longrightarrow>
   i \<le> j \<Longrightarrow> j < e \<Longrightarrow>
   \<exists>st. st \<noteq> [] \<and> scan (take (Suc j) content) i stack = Unclosed st"
proof (induction "length content - i" arbitrary: i stack rule: less_induct)
  case less
  let ?c = "take (Suc j) content"
  from less.prems(1) have b: "i \<le> e" "e < length content"
    using scan_Balanced_bounds by blast+
  with less.prems have inside: "i < length content" and inside': "i < length ?c"
    and len: "length ?c = Suc j" by simp_all
  from less.prems have same: "?c ! i = content ! i" by simp
  from inside have dec: "length content - (i + 1) < length content - i" by simp
  have finish: "\<exists>st. st \<noteq> [] \<and> scan ?c (i + 1) stack' = Unclosed st"
    if "scan content (i + 1) stack' = Balanced e" "stack' \<noteq> []" for stack'
  proof (cases "i = j")
    case True
    with len have "scan ?c (i + 1) stack' = Unclosed stack'" by (simp add: scan_end)
    with that show ?thesis by simp
  next
    case False
    with less.prems have "i + 1 \<le> j" by simp
    from less.hyps [OF dec that(1) _ this less.prems(4)] that(2) show ?thesis by simp
  qed
  from inside show ?case
  proof (cases rule: scan_cases)
    case opener
    with inside less.prems have "scan content (i + 1) (content ! i # stack) = Balanced e"
      by (simp add: scan_open)
    from finish [OF this] opener inside' same show ?thesis
      by (simp add: scan_open)
  next
    case other
    with inside less.prems have "scan content (i + 1) stack = Balanced e" "stack \<noteq> []"
      by (simp_all add: scan_other)
    from finish [OF this] other inside' same show ?thesis
      by (simp add: scan_other)
  next
    case closer
    show ?thesis
    proof (cases stack)
      case Nil
      with closer inside less.prems show ?thesis by (simp add: scan_close)
    next
      case (Cons popped rest)
      show ?thesis
      proof (cases "PAIRS popped \<noteq> Some (content ! i)")
        case True
        with Cons closer inside less.prems show ?thesis by (simp add: scan_close)
      next
        case matching: False
        show ?thesis
        proof (cases "rest = []")
          case True
          with matching Cons closer inside less.prems(1) have "e = i" by (simp add: scan_close)
          with less.prems show ?thesis by simp
        next
          case False
          with matching Cons closer inside less.prems
          have "scan content (i + 1) rest = Balanced e" by (simp add: scan_close)
          from finish [OF this False] False matching Cons closer inside' same show ?thesis
            by (simp add: scan_close)
        qed
      qed
    qed
  qed
qed

lemma takeWhile_neq_shorter:
  "c \<in> set xs \<Longrightarrow> length (takeWhile (\<lambda>x. x \<noteq> c) xs) < length xs"
  by (induction xs) auto

lemma nth_first_occurrence:
  "c \<in> set xs \<Longrightarrow> xs ! length (takeWhile (\<lambda>x. x \<noteq> c) xs) = c"
  by (induction xs) auto

lemma no_occurrence_before_first:
  "j < length (takeWhile (\<lambda>x. x \<noteq> c) xs) \<Longrightarrow> xs ! j \<noteq> c"
proof (induction xs arbitrary: j)
  case Nil
  then show ?case by simp
next
  case (Cons x xs)
  show ?case
  proof (cases j)
    case 0
    with Cons.prems show ?thesis by (auto split: if_splits)
  next
    case (Suc j')
    with Cons.prems have "j' < length (takeWhile (\<lambda>x. x \<noteq> c) xs)"
      by (auto split: if_splits)
    from Cons.IH [OF this] Suc show ?thesis by simp
  qed
qed

lemma indexOf_Some:
  assumes "indexOf content c = Some k"
  shows "k < length content" and "content ! k = c"
    and "j < k \<Longrightarrow> content ! j \<noteq> c"
proof -
  from assms have mem: "c \<in> set content"
    and k: "k = length (takeWhile (\<lambda>x. x \<noteq> c) content)"
    by (auto simp: indexOf_def split: if_splits)
  from mem show "k < length content"
    unfolding k by (rule takeWhile_neq_shorter)
  from mem show "content ! k = c"
    unfolding k by (rule nth_first_occurrence)
  show "content ! j \<noteq> c" if "j < k"
    using that unfolding k by (rule no_occurrence_before_first)
qed

lemma indexOf_None: "indexOf content c = None \<Longrightarrow> c \<notin> set content"
  by (simp add: indexOf_def split: if_splits)

lemma not_in_set_nth: "c \<notin> set xs \<Longrightarrow> j < length xs \<Longrightarrow> xs ! j \<noteq> c"
  using nth_mem by metis

lemma locate_start_Some:
  assumes "locate_start content = Some start"
  shows "start < length content" and "content ! start \<in> set OPENING"
    and "j < start \<Longrightarrow> content ! j \<notin> set OPENING"
proof -
  let ?ob = "indexOf content (cu CHR ''{'')" and ?ar = "indexOf content (cu CHR ''['')"
  have all: "start < length content \<and> content ! start \<in> set OPENING
      \<and> (j < start \<longrightarrow> content ! j \<notin> set OPENING)"
  proof (cases ?ob)
    case None
    with assms have ar: "?ar = Some start"
      by (simp add: locate_start_def)
    have "content ! j \<noteq> cu CHR ''{''" if "j < start"
    proof -
      from that indexOf_Some(1) [OF ar] have "j < length content" by simp
      with indexOf_None [OF None] show ?thesis by (rule not_in_set_nth)
    qed
    with indexOf_Some [OF ar] show ?thesis
      by (simp add: OPENING_def)
  next
    case (Some ob)
    note ob = indexOf_Some [OF Some]
    show ?thesis
    proof (cases ?ar)
      case None
      with Some assms have eq: "start = ob" by (simp add: locate_start_def)
      have "content ! j \<noteq> cu CHR ''[''" if "j < start"
      proof -
        from that ob(1) eq have "j < length content" by simp
        with indexOf_None [OF None] show ?thesis by (rule not_in_set_nth)
      qed
      with ob eq show ?thesis by (simp add: OPENING_def)
    next
      case ar: (Some ar)
      note arf = indexOf_Some [OF ar]
      from Some ar assms have eq: "start = min ob ar" by (simp add: locate_start_def)
      show ?thesis
      proof (cases "ob \<le> ar")
        case True
        with eq have "start = ob" by simp
        with ob arf True show ?thesis by (simp add: OPENING_def)
      next
        case False
        with eq have "start = ar" by simp
        with ob arf False show ?thesis by (simp add: OPENING_def)
      qed
    qed
  qed
  then show "start < length content" and "content ! start \<in> set OPENING"
    and "j < start \<Longrightarrow> content ! j \<notin> set OPENING" by blast+
qed

lemma scan_Unclosed_nonempty:
  "scan content i stack = Unclosed st \<Longrightarrow>
   stack \<noteq> [] \<or> (i < length content \<and> content ! i \<in> set OPENING) \<Longrightarrow> st \<noteq> []"
proof (induction "length content - i" arbitrary: i stack rule: less_induct)
  case less
  show ?case
  proof (cases "i < length content")
    case False
    with less.prems show ?thesis by (simp add: scan_end)
  next
    case True
    then have dec: "length content - (i + 1) < length content - i" by simp
    from True show ?thesis
    proof (cases rule: scan_cases)
      case opener
      with True less.prems have "scan content (i + 1) (content ! i # stack) = Unclosed st"
        by (simp add: scan_open)
      from less.hyps [OF dec this] show ?thesis by simp
    next
      case other
      with True less.prems have "scan content (i + 1) stack = Unclosed st" "stack \<noteq> []"
        by (simp_all add: scan_other)
      from less.hyps [OF dec this(1)] this(2) show ?thesis by simp
    next
      case closer
      with True less.prems(1) obtain popped rest where
        "stack = popped # rest" "rest \<noteq> []" "scan content (i + 1) rest = Unclosed st"
        by (auto simp: scan_close split: list.splits if_splits)
      from less.hyps [OF dec this(3)] this(2) show ?thesis by simp
    qed
  qed
qed

lemma scan_Unclosed_openers:
  "scan content i stack = Unclosed st \<Longrightarrow> set stack \<subseteq> set OPENING \<Longrightarrow> set st \<subseteq> set OPENING"
proof (induction "length content - i" arbitrary: i stack rule: less_induct)
  case less
  show ?case
  proof (cases "i < length content")
    case False
    with less.prems show ?thesis by (simp add: scan_end)
  next
    case True
    then have dec: "length content - (i + 1) < length content - i" by simp
    from True show ?thesis
    proof (cases rule: scan_cases)
      case opener
      with True less.prems have "scan content (i + 1) (content ! i # stack) = Unclosed st"
        by (simp add: scan_open)
      from less.hyps [OF dec this] opener less.prems(2) show ?thesis by simp
    next
      case other
      with True less.prems have "scan content (i + 1) stack = Unclosed st"
        by (simp_all add: scan_other)
      from less.hyps [OF dec this] less.prems(2) show ?thesis by simp
    next
      case closer
      with True less.prems(1) obtain popped rest where
        "stack = popped # rest" "scan content (i + 1) rest = Unclosed st"
        by (auto simp: scan_close split: list.splits if_splits)
      from less.hyps [OF dec this(2)] this(1) less.prems(2) show ?thesis by simp
    qed
  qed
qed

lemma closer_text_opener:
  "popped \<in> set OPENING \<Longrightarrow> \<exists>c. PAIRS popped = Some c \<and> closer_text popped = [c] \<and> c \<in> set CLOSING"
  by (auto simp: OPENING_def CLOSING_def PAIRS_def closer_text_def)

lemma snipJson_reaches_scan:
  "reaches_scan parse input content start \<Longrightarrow>
   snipJson parse (JSString input) =
     Inr (case scan content start [] of
            Mismatch i \<Rightarrow>
              \<lparr> status = Fail, comments = js ''Bracket mismatch detected.'',
                data = JSNull, raw = JSString (slice content start (i + 1)) \<rparr>
          | Unclosed stack \<Rightarrow>
              (case stack of
                 [popped] \<Rightarrow>
                   (case parse (drop start content @ closer_text popped) of
                      Inr v \<Rightarrow>
                        \<lparr> status = Check,
                          comments = js ''One missing closing bracket auto-added. Please verify.'',
                          data = JSObject v, raw = JSNull \<rparr>
                    | Inl msg \<Rightarrow>
                        \<lparr> status = Fail,
                          comments = js ''Auto-closure attempted but parsing failed: '' @ msg,
                          data = JSNull,
                          raw = JSString (drop start content @ closer_text popped) \<rparr>)
               | _ \<Rightarrow>
                   \<lparr> status = Fail, comments = js ''Unbalanced JSON structure.'',
                     data = JSNull, raw = JSString (drop start content) \<rparr>)
          | Balanced e \<Rightarrow>
              (case parse (slice content start (e + 1)) of
                 Inr v \<Rightarrow>
                   \<lparr> status = Success, comments = js ''JSON successfully extracted and parsed.'',
                     data = JSObject v, raw = JSNull \<rparr>
               | Inl msg \<Rightarrow>
                   \<lparr> status = Check,
                     comments = js ''Structurally valid JSON failed to parse: '' @ msg,
                     data = JSNull, raw = JSString (slice content start (e + 1)) \<rparr>))"
  by (simp add: reaches_scan_def snipJson_def extract_json_def Let_def
           split: scan_exit.splits list.splits sum.splits)

section \<open>The copy in src/snipJson.js, step by step, and the engine of part_000 as a whole\<close>

lemma scan_src_end:
  "\<not> i < length content \<Longrightarrow> scan_src content i stack jsonEnd = Finished stack jsonEnd"
  by (subst scan_src.simps) simp

lemma scan_src_open:
  "i < length content \<Longrightarrow> content ! i \<in> set OPENING \<Longrightarrow>
   scan_src content i stack jsonEnd = scan_src content (i + 1) (content ! i # stack) (int i)"
  by (subst scan_src.simps) (auto simp: Let_def OPENING_def CLOSING_def)

lemma scan_src_other:
  "i < length content \<Longrightarrow> content ! i \<notin> set OPENING \<Longrightarrow> content ! i \<notin> set CLOSING \<Longrightarrow>
   scan_src content i stack jsonEnd = scan_src content (i + 1) stack (int i)"
  by (subst scan_src.simps) (simp add: Let_def)

lemma scan_src_close:
  "i < length content \<Longrightarrow> content ! i \<notin> set OPENING \<Longrightarrow> content ! i \<in> set CLOSING \<Longrightarrow>
   scan_src content i stack jsonEnd =
     (case stack of
        [] \<Rightarrow> Mismatch_src (int i)
      | popped # rest \<Rightarrow>
          if PAIRS popped \<noteq> Some (content ! i) then Mismatch_src (int i)
          else scan_src content (i + 1) rest (int i))"
  by (subst scan_src.simps) (simp add: Let_def)

lemma scan_src_Finished_jsonEnd:
  "scan_src content i stack jsonEnd = Finished st jsonEnd' \<Longrightarrow> i < length content \<Longrightarrow>
   jsonEnd' = int (length content) - 1"
proof (induction "length content - i" arbitrary: i stack jsonEnd rule: less_induct)
  case less
  from less.prems(2) have dec: "length content - (i + 1) < length content - i" by simp
  have step: "jsonEnd' = int (length content) - 1"
    if "scan_src content (Suc i) stack' (int i) = Finished st jsonEnd'" for stack'
  proof (cases "i + 1 < length content")
    case True
    from less.hyps [OF dec _ True, of stack' "int i"] that show ?thesis by simp
  next
    case False
    with that less.prems(2) show ?thesis by (simp add: scan_src_end)
  qed
  from less.prems(2) show ?case
  proof (cases rule: scan_cases)
    case opener
    with less.prems show ?thesis by (auto simp: scan_src_open dest: step)
  next
    case other
    with less.prems show ?thesis by (auto simp: scan_src_other dest: step)
  next
    case closer
    with less.prems show ?thesis
      by (auto simp: scan_src_close split: list.splits if_splits dest: step)
  qed
qed

lemma snipJson_src_reaches_scan:
  "reaches_scan_src parse input content start \<Longrightarrow>
   snipJson_src parse (JSString input) =
     Inr (case scan_src content start [] (- 1) of
            Mismatch_src jsonEnd \<Rightarrow>
              \<lparr> status = Fail, comments = js ''Bracket mismatch'', data = JSNull,
                raw = JSString (slice content start (nat (jsonEnd + 1))) \<rparr>
          | Finished stack jsonEnd \<Rightarrow>
              (case stack of
                 [] \<Rightarrow>
                   (case parse (slice content start (nat (jsonEnd + 1))) of
                      Inr v \<Rightarrow>
                        \<lparr> status = Success,
                          comments = js ''JSON successfully extracted and parsed.'',
                          data = JSObject v, raw = JSNull \<rparr>
                    | Inl msg \<Rightarrow>
                        \<lparr> status = Check,
                          comments =
                            js ''Extracted candidate JSON passed bracket validation but failed to parse. Check result.raw. Error : ''
                            @ msg,
                          data = JSNull,
                          raw = JSString (slice content start (nat (jsonEnd + 1))) \<rparr>)
               | [popped] \<Rightarrow>
                   (case parse (slice content start (nat (jsonEnd + 1)) @ closer_text popped) of
                      Inr v \<Rightarrow>
                        \<lparr> status = Check,
                          comments = js ''Added missing closing brace. Parsing passed'',
                          data = JSObject v, raw = JSNull \<rparr>
                    | Inl msg \<Rightarrow>
                        \<lparr> status = Fail,
                          comments =
                            js ''Added missing closing brace. But parsing failed. Error: '' @ msg,
                          data = JSNull,
                          raw = JSString
                                  (slice content start (nat (jsonEnd + 1)) @ closer_text popped) \<rparr>)
               | _ \<Rightarrow>
                   \<lparr> status = Fail, comments = js ''Bracket mismatch'', data = JSNull,
                     raw = JSString (slice content start (nat (jsonEnd + 1))) \<rparr>))"
proof -
  assume r: "reaches_scan_src parse input content start"
  let ?eb = "case PAIRS (content ! start) of None \<Rightarrow> None
             | Some closing \<Rightarrow> lastIndexOf content closing"
  let ?first = "case ?eb of None \<Rightarrow> [] | Some e \<Rightarrow> slice content start (e + 1)"
  from r have san: "sanitizeContent_src (JSString input :: 'a jsval) = Inr content"
    and ne: "content \<noteq> []" and loc: "locate_start content = Some start"
    by (simp_all add: reaches_scan_src_def)
  from r have gate: "\<not> (case ?eb of None \<Rightarrow> False | Some e \<Rightarrow> e \<le> start)"
    by (auto simp: reaches_scan_src_def ending_brace_def split: option.splits)
  from r have "isl (parse ?first)"
    by (simp add: reaches_scan_src_def ending_brace_def first_slice_def)
  then obtain msg1 where first: "parse ?first = Inl msg1"
    by (cases "parse ?first") auto
  have pre: "snipJson_src parse (JSString input) = Inr (extract_json_src parse content)"
    using san ne by (simp add: snipJson_src_def)
  show ?thesis
    unfolding pre extract_json_src_def Let_def
    using loc gate first
    by (simp split: scan_src_exit.splits list.splits sum.splits)
qed

lemma locate_start_unique:
  assumes "locate_start content = Some s'" and "start < length content"
    and "content ! start \<in> set OPENING" and "\<And>j. j < start \<Longrightarrow> content ! j \<notin> set OPENING"
  shows "s' = start"
proof (rule ccontr)
  assume "s' \<noteq> start"
  then consider "s' < start" | "start < s'" by linarith
  then show False
  proof cases
    case 1
    from assms(4) [OF 1] locate_start_Some(2) [OF assms(1)] show False by simp
  next
    case 2
    from locate_start_Some(3) [OF assms(1) 2] assms(3) show False by simp
  qed
qed

lemma locate_start_exists:
  "start < length content \<Longrightarrow> content ! start \<in> set OPENING \<Longrightarrow> locate_start content \<noteq> None"
proof -
  assume a: "start < length content" "content ! start \<in> set OPENING"
  then have "content ! start \<in> set content" by simp
  with a(2) have "cu CHR ''{'' \<in> set content \<or> cu CHR ''['' \<in> set content"
    by (auto simp: OPENING_def)
  then show ?thesis
    by (auto simp: locate_start_def indexOf_def Let_def split: option.splits)
qed

lemma slice_prefix:
  "start \<le> e \<Longrightarrow> e < length content \<Longrightarrow>
   slice (take (Suc e) content @ tail) start (e + 1) = slice content start (e + 1)"
  by (simp add: slice_def take_drop min_def)

text \<open>
  The claim of C2 on the engine of unnamed/part_000: when its scan is reached and the
  stack returns to empty for the first time at index \<open>e\<close>, the scan stops there, the
  candidate is the slice from \<open>start\<close> through \<open>e\<close>, and whatever text stands behind
  index \<open>e\<close> the scan and the result are the same.
\<close>

lemma first_balanced_span_wins:
  assumes "reaches_scan parse input content start" and "scan content start [] = Balanced e"
  shows "start \<le> e" and "e < length content"
    and "scan (take (Suc e) content @ tail) start [] = Balanced e"
    and "start \<le> j \<Longrightarrow> j < e \<Longrightarrow>
         \<exists>st. st \<noteq> [] \<and> scan (take (Suc j) content) start [] = Unclosed st"
    and "snipJson parse (JSString input) =
           Inr (case parse (slice content start (e + 1)) of
                  Inr v \<Rightarrow>
                    \<lparr> status = Success, comments = js ''JSON successfully extracted and parsed.'',
                      data = JSObject v, raw = JSNull \<rparr>
                | Inl msg \<Rightarrow>
                    \<lparr> status = Check,
                      comments = js ''Structurally valid JSON failed to parse: '' @ msg,
                      data = JSNull, raw = JSString (slice content start (e + 1)) \<rparr>)"
    and "reaches_scan parse input' (take (Suc e) content @ tail) start' \<Longrightarrow>
         snipJson parse (JSString input') = snipJson parse (JSString input)"
proof -
  from assms(1) have loc: "locate_start content = Some start"
    by (simp add: reaches_scan_def)
  note opener = locate_start_Some [OF loc]
  from assms(2) show b: "start \<le> e" "e < length content"
    using scan_Balanced_bounds by blast+
  from assms(2) show p: "scan (take (Suc e) content @ tail) start [] = Balanced e" for tail
    by (rule scan_Balanced_prefix)
  from assms(2) opener(2)
  show "\<exists>st. st \<noteq> [] \<and> scan (take (Suc j) content) start [] = Unclosed st"
    if "start \<le> j" "j < e"
    using that by (intro scan_not_balanced_before) simp_all
  from assms show r: "snipJson parse (JSString input) =
           Inr (case parse (slice content start (e + 1)) of
                  Inr v \<Rightarrow>
                    \<lparr> status = Success, comments = js ''JSON successfully extracted and parsed.'',
                      data = JSObject v, raw = JSNull \<rparr>
                | Inl msg \<Rightarrow>
                    \<lparr> status = Check,
                      comments = js ''Structurally valid JSON failed to parse: '' @ msg,
                      data = JSNull, raw = JSString (slice content start (e + 1)) \<rparr>)"
    by (simp add: snipJson_reaches_scan)
  show "snipJson parse (JSString input') = snipJson parse (JSString input)"
    if other: "reaches_scan parse input' (take (Suc e) content @ tail) start'"
  proof -
    let ?c = "take (Suc e) content @ tail"
    from other have loc': "locate_start ?c = Some start'"
      by (simp add: reaches_scan_def)
    from b have same: "?c ! j = content ! j" if "j \<le> e" for j
      using that by (simp add: nth_append)
    have "start' = start"
    proof (rule locate_start_unique [OF loc'])
      from b show "start < length ?c" by simp
      from same [OF b(1)] opener(2) show "?c ! start \<in> set OPENING" by simp
      show "?c ! j \<notin> set OPENING" if "j < start" for j
        using that same [of j] b(1) opener(3) [of j] by simp
    qed
    with other p [of tail] slice_prefix [OF b, of tail] r show ?thesis
      by (simp add: snipJson_reaches_scan split: sum.splits)
  qed
qed

text \<open>
  The claim of C3 on the engine of unnamed/part_000: when its scan is reached and
  exhausts the text, the stack is not empty; with one delimiter open, its matching closer
  is appended to the slice from \<open>start\<close> to the end of the text and decoded; with more
  than one open, nothing is repaired.
\<close>

lemma unclosed_structure_repair:
  assumes "reaches_scan parse input content start" and "scan content start [] = Unclosed stack"
  shows "stack \<noteq> []"
    and "stack = [popped] \<Longrightarrow>
         \<exists>c. PAIRS popped = Some c \<and>
           snipJson parse (JSString input) =
             Inr (case parse (drop start content @ [c]) of
                    Inr v \<Rightarrow>
                      \<lparr> status = Check,
                        comments = js ''One missing closing bracket auto-added. Please verify.'',
                        data = JSObject v, raw = JSNull \<rparr>
                  | Inl msg \<Rightarrow>
                      \<lparr> status = Fail,
                        comments = js ''Auto-closure attempted but parsing failed: '' @ msg,
                        data = JSNull, raw = JSString (drop start content @ [c]) \<rparr>)"
    and "length stack > 1 \<Longrightarrow>
         snipJson parse (JSString input) =
           Inr \<lparr> status = Fail, comments = js ''Unbalanced JSON structure.'',
                 data = JSNull, raw = JSString (drop start content) \<rparr>"
proof -
  from assms(1) have loc: "locate_start content = Some start"
    by (simp add: reaches_scan_def)
  note opener = locate_start_Some [OF loc]
  from assms(2) opener show "stack \<noteq> []"
    by (intro scan_Unclosed_nonempty [of content start "[]"]) simp_all
  from assms(2) have openers: "set stack \<subseteq> set OPENING"
    by (rule scan_Unclosed_openers) simp
  show "\<exists>c. PAIRS popped = Some c \<and>
           snipJson parse (JSString input) =
             Inr (case parse (drop start content @ [c]) of
                    Inr v \<Rightarrow>
                      \<lparr> status = Check,
                        comments = js ''One missing closing bracket auto-added. Please verify.'',
                        data = JSObject v, raw = JSNull \<rparr>
                  | Inl msg \<Rightarrow>
                      \<lparr> status = Fail,
                        comments = js ''Auto-closure attempted but parsing failed: '' @ msg,
                        data = JSNull, raw = JSString (drop start content @ [c]) \<rparr>)"
    if one: "stack = [popped]"
  proof -
    from openers one have "popped \<in> set OPENING" by simp
    then obtain c where c: "PAIRS popped = Some c" "closer_text popped = [c]"
      using closer_text_opener by blast
    with assms one show ?thesis
      by (simp add: snipJson_reaches_scan split: sum.splits)
  qed
  show "snipJson parse (JSString input) =
           Inr \<lparr> status = Fail, comments = js ''Unbalanced JSON structure.'',
                 data = JSNull, raw = JSString (drop start content) \<rparr>"
    if "length stack > 1"
  proof -
    from that obtain a b rest where "stack = a # b # rest"
      by (cases stack; cases "tl stack") auto
    with assms show ?thesis
      by (simp add: snipJson_reaches_scan)
  qed
qed

text \<open>
  The claim of C1 on the engine of unnamed/part_000: it returns a Result for every
  input. (The tag engine \<open>snipByTag\<close> has no statement that can raise: reads out of
  range give \<^verbatim>\<open>undefined\<close>, \<^verbatim>\<open>pop\<close> on an empty stack gives \<^verbatim>\<open>undefined\<close>, and its model
  returns a Result by its type.)
\<close>

lemma snipJson_never_throws: "\<exists>r. snipJson parse content = Inr r"
  by (cases content) (simp_all add: snipJson_def sanitizeContent_def)

section \<open>The Result record of every exit\<close>

lemma extract_json_discipline:
  "data_raw_discipline (js ''One missing closing bracket auto-added. Please verify.'')
     (extract_json parse content)"
proof (cases "locate_start content")
  case None
  then show ?thesis by (simp add: extract_json_def data_raw_discipline_def)
next
  case (Some start)
  show ?thesis
  proof (cases "fast_path parse content start")
    case fast: (Some v)
    with Some show ?thesis by (simp add: extract_json_def data_raw_discipline_def)
  next
    case None
    show ?thesis
    proof (cases "scan content start []")
      case (Mismatch i)
      with None Some show ?thesis by (simp add: extract_json_def data_raw_discipline_def)
    next
      case (Balanced e)
      with None Some show ?thesis
        by (cases "parse (slice content start (e + 1))")
           (simp_all add: extract_json_def data_raw_discipline_def)
    next
      case (Unclosed stack)
      show ?thesis
      proof (cases stack)
        case Nil
        with Unclosed None Some show ?thesis
          by (simp add: extract_json_def data_raw_discipline_def)
      next
        case (Cons popped rest)
        show ?thesis
        proof (cases rest)
          case Nil
          with Cons Unclosed None Some show ?thesis
            by (cases "parse (drop start content @ closer_text popped)")
               (simp_all add: extract_json_def data_raw_discipline_def)
        next
          case (Cons b rest')
          with \<open>stack = popped # rest\<close> Unclosed None Some show ?thesis
            by (simp add: extract_json_def data_raw_discipline_def)
        qed
      qed
    qed
  qed
qed

lemma snipJson_discipline:
  "snipJson parse content = Inr r \<Longrightarrow>
   data_raw_discipline (js ''One missing closing bracket auto-added. Please verify.'') r"
  using extract_json_discipline [of parse]
  by (cases content)
     (auto simp: snipJson_def sanitizeContent_def data_raw_discipline_def split: if_splits)

lemma snipByTag_discipline:
  "data_raw_discipline anyNote (snipByTag content caseSensitive)
   \<and> status (snipByTag content caseSensitive) \<noteq> Check"
proof (cases content)
  case (JSString input)
  show ?thesis
  proof (cases "input = []")
    case True
    with JSString show ?thesis by (simp add: snipByTag_def data_raw_discipline_def)
  next
    case False
    show ?thesis
    proof (cases "tag_loop caseSensitive input 0 [] None")
      case (EndOfInput stack snippetStart)
      with False JSString show ?thesis
        by (cases stack; cases snippetStart) (simp_all add: snipByTag_def data_raw_discipline_def)
    qed (simp_all add: snipByTag_def data_raw_discipline_def JSString False)
  qed
qed (simp_all add: snipByTag_def data_raw_discipline_def)

lemma extract_json_src_discipline:
  "data_raw_discipline (js ''Added missing closing brace. Parsing passed'')
     (extract_json_src parse content)"
proof (cases "locate_start content")
  case None
  then show ?thesis by (simp add: extract_json_src_def data_raw_discipline_def)
next
  case (Some start)
  let ?eb = "case PAIRS (content ! start) of None \<Rightarrow> None
             | Some closing \<Rightarrow> lastIndexOf content closing"
  let ?first = "case ?eb of None \<Rightarrow> [] | Some e \<Rightarrow> slice content start (e + 1)"
  show ?thesis
  proof (cases "case ?eb of None \<Rightarrow> False | Some e \<Rightarrow> e \<le> start")
    case True
    with Some show ?thesis by (simp add: extract_json_src_def data_raw_discipline_def Let_def)
  next
    case gate: False
    show ?thesis
    proof (cases "parse ?first")
      case (Inr v)
      with gate Some show ?thesis
        by (simp add: extract_json_src_def data_raw_discipline_def Let_def)
    next
      case (Inl msg1)
      show ?thesis
      proof (cases "scan_src content start [] (- 1)")
        case (Mismatch_src jsonEnd)
        with Inl gate Some show ?thesis
          by (simp add: extract_json_src_def data_raw_discipline_def Let_def)
      next
        case (Finished stack jsonEnd)
        show ?thesis
        proof (cases stack)
          case Nil
          with Finished Inl gate Some show ?thesis
            by (cases "parse (slice content start (nat (jsonEnd + 1)))")
               (simp_all add: extract_json_src_def data_raw_discipline_def Let_def)
        next
          case (Cons popped rest)
          show ?thesis
          proof (cases rest)
            case Nil
            with Cons Finished Inl gate Some show ?thesis
              by (cases "parse (slice content start (nat (jsonEnd + 1)) @ closer_text popped)")
                 (simp_all add: extract_json_src_def data_raw_discipline_def Let_def)
          next
            case (Cons b rest')
            with \<open>stack = popped # rest\<close> Finished Inl gate Some show ?thesis
              by (simp add: extract_json_src_def data_raw_discipline_def Let_def)
          qed
        qed
      qed
    qed
  qed
qed

lemma snipJson_src_discipline:
  "snipJson_src parse content = Inr r \<Longrightarrow>
   data_raw_discipline (js ''Added missing closing brace. Parsing passed'') r"
  using extract_json_src_discipline [of parse]
  by (cases content)
     (auto simp: snipJson_src_def sanitizeContent_src_def data_raw_discipline_def
           split: if_splits)

lemma snipSmart_discipline:
  assumes "\<And>r. engine content = Inr r \<Longrightarrow> data_raw_discipline anyNote r"
    and "snipSmart engine content options = Inr r"
  shows "data_raw_discipline anyNote r"
proof -
  let ?f = "format_of options"
  consider "?f = JSString (js ''json'')" | "?f = JSString (js ''tag'')"
    | "?f \<noteq> JSString (js ''json'')" "?f \<noteq> JSString (js ''tag'')" by blast
  then show ?thesis
  proof cases
    case 1
    with assms show ?thesis by (simp add: snipSmart_def)
  next
    case 2
    with assms(2) snipByTag_discipline [of anyNote content False] show ?thesis
      by (auto simp: snipSmart_def)
  next
    case 3
    with assms(2) show ?thesis
      by (auto simp: snipSmart_def data_raw_discipline_def Let_def)
  qed
qed

section \<open>The Result invariant\<close>

text \<open>
  C4. No Result has both \<^verbatim>\<open>data\<close> and \<^verbatim>\<open>raw\<close>: whatever the input, the decoder and the
  configuration, the Result of the JSON engine (either copy), of the tag engine and of
  the dispatcher (over either copy) has no \<^verbatim>\<open>raw\<close> on Success and no \<^verbatim>\<open>data\<close> on Fail,
  and on Check it has \<^verbatim>\<open>data\<close> only without \<^verbatim>\<open>raw\<close> and under the comment of the repair
  that decoded. The tag engine never returns Check.
\<close>

theorem data_and_raw_never_together:
  "(snipJson parse content = Inr r \<longrightarrow>
      data_raw_discipline (js ''One missing closing bracket auto-added. Please verify.'') r)
   \<and> (snipJson_src parse content = Inr r \<longrightarrow>
      data_raw_discipline (js ''Added missing closing brace. Parsing passed'') r)
   \<and> data_raw_discipline anyNote (snipByTag content caseSensitive)
   \<and> status (snipByTag content caseSensitive) \<noteq> Check
   \<and> (snipSmart (snipJson parse) content options = Inr r \<longrightarrow>
      data_raw_discipline (js ''One missing closing bracket auto-added. Please verify.'') r)
   \<and> (snipSmart (snipJson_src parse) content options = Inr r \<longrightarrow>
      data_raw_discipline (js ''Added missing closing brace. Parsing passed'') r)"
proof -
  have a: "data_raw_discipline (js ''One missing closing bracket auto-added. Please verify.'') r"
    if "snipSmart (snipJson parse) content options = Inr r"
    using _ that by (rule snipSmart_discipline) (rule snipJson_discipline)
  have b: "data_raw_discipline (js ''Added missing closing brace. Parsing passed'') r"
    if "snipSmart (snipJson_src parse) content options = Inr r"
    using _ that by (rule snipSmart_discipline) (rule snipJson_src_discipline)
  from a b snipJson_discipline [of parse content r] snipJson_src_discipline [of parse content r]
    snipByTag_discipline [of anyNote content caseSensitive]
  show ?thesis by blast
qed

theorem data_and_raw_never_together_witness:
  "snipJson JSON_parse (JSString (js ''{ \"a\": 1 ''))
     = Inr \<lparr> status = Check,
             comments = js ''One missing closing bracket auto-added. Please verify.'',
             data = JSObject (JObj [(js ''a'', JNum 1)]), raw = JSNull \<rparr>
   \<and> data_raw_discipline (js ''One missing closing bracket auto-added. Please verify.'')
       \<lparr> status = Check,
         comments = js ''One missing closing bracket auto-added. Please verify.'',
         data = JSObject (JObj [(js ''a'', JNum 1)]), raw = JSNull \<rparr>
   \<and> snipSmart (snipJson JSON_parse) (JSString (js ''{ \"a\": 1 '')) (OptValue JSUndefined)
     = Inr \<lparr> status = Check,
             comments = js ''One missing closing bracket auto-added. Please verify.'',
             data = JSObject (JObj [(js ''a'', JNum 1)]), raw = JSNull \<rparr>"
proof -
  let ?c = "JSString (js ''{ \"a\": 1 '') :: json jsval"
  let ?r = "\<lparr> status = Check,
             comments = js ''One missing closing bracket auto-added. Please verify.'',
             data = JSObject (JObj [(js ''a'', JNum 1)]), raw = JSNull \<rparr>"
  have h: "snipJson JSON_parse ?c = Inr ?r" by code_simp
  have d: "snipSmart (snipJson JSON_parse) ?c (OptValue JSUndefined) = Inr ?r" by code_simp
  from data_and_raw_never_together [of JSON_parse ?c ?r] h d show ?thesis by blast
qed

section \<open>A balanced candidate that does not decode\<close>

text \<open>
  When the scan of unnamed/part_000 finds a balanced candidate and the candidate does
  not decode, the engine returns Check with no \<^verbatim>\<open>data\<close>, a comment that ends with the
  decoder's message, and \<^verbatim>\<open>raw\<close> set to the candidate: the slice from the start through
  the index \<open>e\<close> where the stack first became empty.
\<close>

lemma balanced_but_undecodable_is_check_part_000:
  assumes "reaches_scan parse input content start" and "scan content start [] = Balanced e"
    and "parse (slice content start (e + 1)) = Inl msg"
  shows "snipJson parse (JSString input) =
          Inr \<lparr> status = Check,
                comments = js ''Structurally valid JSON failed to parse: '' @ msg,
                data = JSNull, raw = JSString (slice content start (e + 1)) \<rparr>"
  using assms by (simp add: snipJson_reaches_scan)

text \<open>
  The copy in src/snipJson.js returns its Check only when its loop ends at the end of the
  text with an empty stack, and its candidate is then the text from the start on,
  whatever stands behind the balanced span.
\<close>

lemma snipJson_src_balanced_at_end_of_text:
  assumes a: "reaches_scan_src parse input content start"
    "scan_src content start [] (- 1) = Finished [] jsonEnd"
    "parse (drop start content) = Inl msg"
  shows "snipJson_src parse (JSString input) =
          Inr \<lparr> status = Check,
                comments =
                  js ''Extracted candidate JSON passed bracket validation but failed to parse. Check result.raw. Error : ''
                  @ msg,
                data = JSNull, raw = JSString (drop start content) \<rparr>"
proof -
  from a have "locate_start content = Some start" by (simp add: reaches_scan_src_def)
  then have inside: "start < length content" by (rule locate_start_Some)
  with a have "jsonEnd = int (length content) - 1"
    using scan_src_Finished_jsonEnd by blast
  then have "slice content start (nat (jsonEnd + 1)) = drop start content"
    by (simp add: slice_def)
  with a show ?thesis by (simp add: snipJson_src_reaches_scan)
qed

section \<open>Where the copy in src/snipJson.js leaves the specification\<close>

text \<open>
  C1. The engines never throw. The engine of unnamed/part_000 does not
  (\<open>snipJson_never_throws\<close>) and the tag engine cannot, but the copy in src/snipJson.js
  calls \<^verbatim>\<open>sanitizeContent(content)\<close> ahead of its input check: for every input that is not
  a string it raises a TypeError, by itself and through the dispatcher.
\<close>

theorem snipJson_src_raises_on_non_strings:
  "snipJson_src parse JSNull = Inl TypeError
   \<and> snipJson_src parse JSUndefined = Inl TypeError
   \<and> snipJson_src parse (JSNumber n) = Inl TypeError
   \<and> snipJson_src parse (JSBoolean b) = Inl TypeError
   \<and> snipJson_src parse (JSObject ob) = Inl TypeError
   \<and> snipSmart (snipJson_src parse) JSNull (OptValue JSUndefined) = Inl TypeError"
  by (simp add: snipJson_src_def sanitizeContent_src_def snipSmart_def format_of_def)

text \<open>
  C2. The first balanced span wins. The engine of unnamed/part_000 stops where the stack
  first empties (\<open>first_balanced_span_wins\<close>); the loop of the copy in src/snipJson.js has
  no \<^verbatim>\<open>break\<close>. In \<^verbatim>\<open>[1,] ]\<close> the stack first empties at index 3: part_000 stops there and
  returns what it returns for \<^verbatim>\<open>[1,]\<close>, while the copy scans on to index 5 and turns the
  Check it gives for \<^verbatim>\<open>[1,]\<close> into a Fail.
\<close>

theorem scan_src_runs_past_first_balance:
  "scan (js ''[1,] ]'') 0 [] = Balanced 3
   \<and> scan_src (js ''[1,] ]'') 0 [] (- 1) = Mismatch_src 5
   \<and> snipJson_src JSON_parse (JSString (js ''[1,]'')) =
       Inr \<lparr> status = Check,
             comments =
               js ''Extracted candidate JSON passed bracket validation but failed to parse. Check result.raw. Error : Unexpected token or end of JSON input'',
             data = JSNull, raw = JSString (js ''[1,]'') \<rparr>
   \<and> snipJson_src JSON_parse (JSString (js ''[1,] ]'')) =
       Inr \<lparr> status = Fail, comments = js ''Bracket mismatch'', data = JSNull,
             raw = JSString (js ''[1,] ]'') \<rparr>
   \<and> snipJson JSON_parse (JSString (js ''[1,] ]''))
       = snipJson JSON_parse (JSString (js ''[1,]''))"
proof (intro conjI)
  show "scan (js ''[1,] ]'') 0 [] = Balanced 3" by code_simp
  show "scan_src (js ''[1,] ]'') 0 [] (- 1) = Mismatch_src 5" by code_simp
  show "snipJson_src JSON_parse (JSString (js ''[1,]'')) =
       Inr \<lparr> status = Check,
             comments =
               js ''Extracted candidate JSON passed bracket validation but failed to parse. Check result.raw. Error : Unexpected token or end of JSON input'',
             data = JSNull, raw = JSString (js ''[1,]'') \<rparr>" by code_simp
  show "snipJson_src JSON_parse (JSString (js ''[1,] ]'')) =
       Inr \<lparr> status = Fail, comments = js ''Bracket mismatch'', data = JSNull,
             raw = JSString (js ''[1,] ]'') \<rparr>" by code_simp
  show "snipJson JSON_parse (JSString (js ''[1,] ]''))
       = snipJson JSON_parse (JSString (js ''[1,]''))" by code_simp
qed

text \<open>
  C3. The end of the text with delimiters left open. The engine of unnamed/part_000
  does what the claim says (\<open>unclosed_structure_repair\<close>). The copy in src/snipJson.js
  repairs and reports in the same way, but with more than one delimiter open its
  comment is "Bracket mismatch", the comment of its mismatch exit, and not
  "Unbalanced JSON structure.".
\<close>

theorem snipJson_src_unclosed_comment:
  "snipJson_src JSON_parse (JSString (js ''[['')) =
     Inr \<lparr> status = Fail, comments = js ''Bracket mismatch'', data = JSNull,
           raw = JSString (js ''[['') \<rparr>
   \<and> snipJson JSON_parse (JSString (js ''[['')) =
     Inr \<lparr> status = Fail, comments = js ''Unbalanced JSON structure.'', data = JSNull,
           raw = JSString (js ''[['') \<rparr>"
proof (intro conjI)
  show "snipJson_src JSON_parse (JSString (js ''[['')) =
     Inr \<lparr> status = Fail, comments = js ''Bracket mismatch'', data = JSNull,
           raw = JSString (js ''[['') \<rparr>" by code_simp
  show "snipJson JSON_parse (JSString (js ''[['')) =
     Inr \<lparr> status = Fail, comments = js ''Unbalanced JSON structure.'', data = JSNull,
           raw = JSString (js ''[['') \<rparr>" by code_simp
qed

text \<open>
  C5. A balanced candidate that does not decode gives Check, no \<^verbatim>\<open>data\<close>, the decoder's
  message in the comment, and \<^verbatim>\<open>raw\<close> set to the candidate. The engine of
  unnamed/part_000 does so (\<open>balanced_but_undecodable_is_check_part_000\<close>); the copy in
  src/snipJson.js does not. In \<^verbatim>\<open>x [1,] y\<close> the stack is empty again at index 5 and the
  span \<^verbatim>\<open>[1,]\<close> does not decode: part_000 returns Check with that span as \<^verbatim>\<open>raw\<close>, the
  copy returns Check with \<^verbatim>\<open>[1,] y\<close>. In \<^verbatim>\<open>{"a":} ]\<close> the stack is empty again at index 5
  and the span \<^verbatim>\<open>{"a":}\<close> does not decode: part_000 returns Check with that span, the
  copy scans on and returns Fail.
\<close>

theorem snipJson_src_balanced_but_undecodable:
  "scan (js ''x [1,] y'') 2 [] = Balanced 5
   \<and> slice (js ''x [1,] y'') 2 (5 + 1) = js ''[1,]''
   \<and> JSON_parse (js ''[1,]'') = Inl (js ''Unexpected token or end of JSON input'')
   \<and> snipJson_src JSON_parse (JSString (js ''x [1,] y'')) =
       Inr \<lparr> status = Check,
             comments =
               js ''Extracted candidate JSON passed bracket validation but failed to parse. Check result.raw. Error : Unexpected token or end of JSON input'',
             data = JSNull, raw = JSString (js ''[1,] y'') \<rparr>
   \<and> snipJson JSON_parse (JSString (js ''x [1,] y'')) =
       Inr \<lparr> status = Check,
             comments = js ''Structurally valid JSON failed to parse: Unexpected token or end of JSON input'',
             data = JSNull, raw = JSString (js ''[1,]'') \<rparr>
   \<and> scan (js ''{\"a\":} ]'') 0 [] = Balanced 5
   \<and> slice (js ''{\"a\":} ]'') 0 (5 + 1) = js ''{\"a\":}''
   \<and> JSON_parse (js ''{\"a\":}'') = Inl (js ''Unexpected token or end of JSON input'')
   \<and> snipJson_src JSON_parse (JSString (js ''{\"a\":} ]'')) =
       Inr \<lparr> status = Fail, comments = js ''Bracket mismatch'', data = JSNull,
             raw = JSString (js ''{\"a\":} ]'') \<rparr>
   \<and> snipJson JSON_parse (JSString (js ''{\"a\":} ]'')) =
       Inr \<lparr> status = Check,
             comments = js ''Structurally valid JSON failed to parse: Unexpected token or end of JSON input'',
             data = JSNull, raw = JSString (js ''{\"a\":}'') \<rparr>"
proof (intro conjI)
  show "scan (js ''x [1,] y'') 2 [] = Balanced 5" by code_simp
  show "slice (js ''x [1,] y'') 2 (5 + 1) = js ''[1,]''" by code_simp
  show "JSON_parse (js ''[1,]'') = Inl (js ''Unexpected token or end of JSON input'')"
    by code_simp
  show "snipJson_src JSON_parse (JSString (js ''x [1,] y'')) =
       Inr \<lparr> status = Check,
             comments =
               js ''Extracted candidate JSON passed bracket validation but failed to parse. Check result.raw. Error : Unexpected token or end of JSON input'',
             data = JSNull, raw = JSString (js ''[1,] y'') \<rparr>" by code_simp
  show "snipJson JSON_parse (JSString (js ''x [1,] y'')) =
       Inr \<lparr> status = Check,
             comments = js ''Structurally valid JSON failed to parse: Unexpected token or end of JSON input'',
             data = JSNull, raw = JSString (js ''[1,]'') \<rparr>" by code_simp
  show "scan (js ''{\"a\":} ]'') 0 [] = Balanced 5" by code_simp
  show "slice (js ''{\"a\":} ]'') 0 (5 + 1) = js ''{\"a\":}''" by code_simp
  show "JSON_parse (js ''{\"a\":}'') = Inl (js ''Unexpected token or end of JSON input'')"
    by code_simp
  show "snipJson_src JSON_parse (JSString (js ''{\"a\":} ]'')) =
       Inr \<lparr> status = Fail, comments = js ''Bracket mismatch'', data = JSNull,
             raw = JSString (js ''{\"a\":} ]'') \<rparr>" by code_simp
  show "snipJson JSON_parse (JSString (js ''{\"a\":} ]'')) =
       Inr \<lparr> status = Check,
             comments = js ''Structurally valid JSON failed to parse: Unexpected token or end of JSON input'',
             data = JSNull, raw = JSString (js ''{\"a\":}'') \<rparr>" by code_simp
qed

section \<open>The engine cleans its input itself\<close>

text \<open>
  C6 as the specification states it: the JSON engine works on its input exactly as
  given. It does not. Handed \<^verbatim>\<open>[`}\<close>, the engine of unnamed/part_000 strips the backtick
  and reports the mismatch on \<^verbatim>\<open>[}\<close>; its steps applied to the input as given would
  report it on \<^verbatim>\<open>[`}\<close>. Handed \<^verbatim>\<open>["+}\<close>, the copy in src/snipJson.js strips the quote and
  the plus sign.
\<close>

theorem engine_works_on_input_as_given_counterexample:
  "sanitizeContent (JSString (js ''[`}'') :: json jsval) = Inr (js ''[}'')
   \<and> snipJson JSON_parse (JSString (js ''[`}'')) =
       Inr \<lparr> status = Fail, comments = js ''Bracket mismatch detected.'', data = JSNull,
             raw = JSString (js ''[}'') \<rparr>
   \<and> extract_json JSON_parse (js ''[`}'') =
       \<lparr> status = Fail, comments = js ''Bracket mismatch detected.'', data = JSNull,
         raw = JSString (js ''[`}'') \<rparr>
   \<and> snipJson_src JSON_parse (JSString (js ''[\"+}'')) =
       Inr \<lparr> status = Fail, comments = js ''Bracket mismatch'', data = JSNull,
             raw = JSString (js ''[}'') \<rparr>"
proof (intro conjI)
  show "sanitizeContent (JSString (js ''[`}'') :: json jsval) = Inr (js ''[}'')" by code_simp
  show "snipJson JSON_parse (JSString (js ''[`}'')) =
       Inr \<lparr> status = Fail, comments = js ''Bracket mismatch detected.'', data = JSNull,
             raw = JSString (js ''[}'') \<rparr>" by code_simp
  show "extract_json JSON_parse (js ''[`}'') =
       \<lparr> status = Fail, comments = js ''Bracket mismatch detected.'', data = JSNull,
         raw = JSString (js ''[`}'') \<rparr>" by code_simp
  show "snipJson_src JSON_parse (JSString (js ''[\"+}'')) =
       Inr \<lparr> status = Fail, comments = js ''Bracket mismatch'', data = JSNull,
             raw = JSString (js ''[}'') \<rparr>" by code_simp
qed

subsection \<open>The clean-up, step by step\<close>

lemma dropWhile_head_member: "dropWhile P xs = y # ys \<Longrightarrow> y \<in> set xs"
  using set_dropWhileD [of y P xs] by simp

lemma match_concat_no_plus:
  assumes "cu CHR ''+'' \<notin> set cs" and "\<not> is_space q" and "q \<noteq> cu CHR ''+''"
  shows "match_concat (c # cs @ q # rest) = None"
proof (cases "is_quote c")
  case False
  then show ?thesis by (simp add: match_concat_def)
next
  case True
  have "dropWhile is_space (cs @ q # rest) \<noteq> []"
    using assms(2) by (simp add: dropWhile_append)
  then obtain y ys where d: "dropWhile is_space (cs @ q # rest) = y # ys"
    by (cases "dropWhile is_space (cs @ q # rest)") auto
  have "y \<noteq> cu CHR ''+''"
  proof (cases "\<forall>x\<in>set cs. is_space x")
    case True
    with d assms(2) have "y = q" by (simp add: dropWhile_append)
    with assms(3) show ?thesis by simp
  next
    case False
    with d have "dropWhile is_space cs @ q # rest = y # ys" by (simp add: dropWhile_append)
    moreover from False have "dropWhile is_space cs \<noteq> []" by simp
    ultimately have "y \<in> set (dropWhile is_space cs)"
      by (cases "dropWhile is_space cs") auto
    then have "y \<in> set cs" by (rule set_dropWhileD)
    with assms(1) show ?thesis by auto
  qed
  with True d show ?thesis by (simp add: match_concat_def)
qed

lemma match_concat_no_plus_end:
  assumes "cu CHR ''+'' \<notin> set cs"
  shows "match_concat (c # cs) = None"
proof (cases "dropWhile is_space cs")
  case Nil
  then show ?thesis by (simp add: match_concat_def del: dropWhile_eq_Nil_conv)
next
  case (Cons y ys)
  then have "y \<in> set cs" by (rule dropWhile_head_member)
  with assms have "y \<noteq> cu CHR ''+''" by auto
  with Cons show ?thesis by (simp add: match_concat_def)
qed

lemma strip_concat_Nil: "strip_concat [] = []"
  by (subst strip_concat.simps) simp

lemma strip_concat_keep:
  "match_concat (c # cs) = None \<Longrightarrow> strip_concat (c # cs) = c # strip_concat cs"
  by (subst strip_concat.simps) simp

lemma strip_concat_drop:
  "match_concat (c # cs) = Some rest \<Longrightarrow> strip_concat (c # cs) = strip_concat rest"
  by (subst strip_concat.simps) simp

lemma strip_concat_no_plus: "cu CHR ''+'' \<notin> set s \<Longrightarrow> strip_concat s = s"
proof (induction s)
  case Nil
  show ?case by (rule strip_concat_Nil)
next
  case (Cons c cs)
  then have "match_concat (c # cs) = None" by (simp add: match_concat_no_plus_end)
  with Cons show ?case by (simp add: strip_concat_keep)
qed

lemma strip_concat_prefix:
  assumes "cu CHR ''+'' \<notin> set p" and "\<not> is_space q" and "q \<noteq> cu CHR ''+''"
  shows "strip_concat (p @ q # rest) = p @ strip_concat (q # rest)"
  using assms(1)
proof (induction p)
  case Nil
  show ?case by simp
next
  case (Cons c cs)
  then have "match_concat (c # cs @ q # rest) = None"
    using assms(2,3) by (simp add: match_concat_no_plus)
  with Cons show ?case by (simp add: strip_concat_keep)
qed

lemma is_quote_not_space: "is_quote q \<Longrightarrow> \<not> is_space q"
  by (auto simp: is_quote_def is_space_def)

lemma is_quote_not_plus: "is_quote q \<Longrightarrow> q \<noteq> cu CHR ''+''"
  by (auto simp: is_quote_def)

lemma plus_not_space: "\<not> is_space (cu CHR ''+'')"
  by (simp add: is_space_def)

lemma match_concat_artifact:
  assumes "is_quote q" and "\<forall>x\<in>set sp. is_space x" and "\<forall>x\<in>set sp'. is_space x"
    and "is_quote q'"
  shows "match_concat (q # sp @ cu CHR ''+'' # sp' @ q' # rest) = Some rest"
proof -
  have "dropWhile is_space (sp @ cu CHR ''+'' # sp' @ q' # rest) = cu CHR ''+'' # sp' @ q' # rest"
    using assms(2) plus_not_space by (simp add: dropWhile_append)
  moreover have "dropWhile is_space (sp' @ q' # rest) = q' # rest"
    using assms(3) is_quote_not_space [OF assms(4)] by (simp add: dropWhile_append)
  ultimately show ?thesis using assms(1,4) by (simp add: match_concat_def)
qed

lemma strip_fences_prefix:
  "cu CHR ''`'' \<notin> set p \<Longrightarrow>
   strip_fences b (p @ rest) = p @ strip_fences (if p = [] then b else is_line_terminator (last p)) rest"
proof (induction p arbitrary: b)
  case Nil
  show ?case by simp
next
  case (Cons c cs)
  then have c: "c \<noteq> cu CHR ''`''" by auto
  then have "strip_fences b ((c # cs) @ rest) = c # strip_fences (is_line_terminator c) (cs @ rest)"
    by simp
  with Cons show ?case by simp
qed

lemma strip_fences_no_backtick: "cu CHR ''`'' \<notin> set p \<Longrightarrow> strip_fences b p = p"
  using strip_fences_prefix [of p b "[]"] by simp

lemma strip_fences_opening: "strip_fences True (js ''```json'' @ rest) = strip_fences False rest"
  by simp

lemma strip_fences_closing: "strip_fences b (js ''```'') = []"
  by simp

lemma strip_fences_stray:
  "c \<noteq> cu CHR ''`'' \<Longrightarrow>
   strip_fences b (cu CHR ''`'' # c # rest) = cu CHR ''`'' # strip_fences False (c # rest)"
  by (simp add: is_line_terminator_def)

lemma strip_outer_quotes_none:
  "s \<noteq> [] \<Longrightarrow> \<not> is_quote (hd s) \<Longrightarrow> \<not> is_quote (last s) \<Longrightarrow> strip_outer_quotes s = s"
  by (cases s) (simp_all add: strip_outer_quotes_def)

lemma strip_outer_quotes_both:
  "is_quote q \<Longrightarrow> is_quote q' \<Longrightarrow> strip_outer_quotes (q # p @ [q']) = p"
  by (simp add: strip_outer_quotes_def)

lemma strip_backticks_none: "cu CHR ''`'' \<notin> set s \<Longrightarrow> strip_backticks s = s"
  by (auto simp: strip_backticks_def filter_id_conv)

lemma unescape_newlines_Cons:
  "b \<noteq> 0x5C \<Longrightarrow> unescape_newlines (b # s) = b # unescape_newlines s"
  by (cases s) simp_all

lemma unescape_newlines_none: "0x5C \<notin> set s \<Longrightarrow> unescape_newlines s = s"
  by (induction s) (auto simp: unescape_newlines_Cons)

lemma unescape_newlines_prefix:
  "0x5C \<notin> set p \<Longrightarrow>
   unescape_newlines (p @ 0x5C # cu CHR ''n'' # rest) = p @ 0x0A # unescape_newlines rest"
  by (induction p) (auto simp: unescape_newlines_Cons)

lemma trim_none: "s \<noteq> [] \<Longrightarrow> \<not> is_space (hd s) \<Longrightarrow> \<not> is_space (last s) \<Longrightarrow> trim s = s"
proof -
  assume a: "s \<noteq> []" "\<not> is_space (hd s)" "\<not> is_space (last s)"
  then have "dropWhile is_space s = s" by (cases s) simp_all
  moreover from a have "dropWhile is_space (rev s) = rev s"
    by (cases "rev s") (simp_all add: last_rev [symmetric] hd_rev)
  ultimately show ?thesis by (simp add: trim_def)
qed

lemma trim_wrapped:
  assumes "\<forall>x\<in>set a. is_space x" and "\<forall>x\<in>set b. is_space x"
    and "p \<noteq> []" and "\<not> is_space (hd p)" and "\<not> is_space (last p)"
  shows "trim (a @ p @ b) = p"
proof -
  from assms(1,3,4) have "dropWhile is_space (a @ p @ b) = p @ b"
    by (cases p) (simp_all add: dropWhile_append)
  moreover from assms(2,3,5) have "dropWhile is_space (rev b @ rev p) = rev p"
    by (cases "rev p") (simp_all add: dropWhile_append last_rev [symmetric] hd_rev)
  ultimately show ?thesis by (simp add: trim_def)
qed

lemma plain_parts:
  assumes "plain p"
  shows "p \<noteq> []" "\<not> is_space (hd p)" "\<not> is_quote (hd p)" "\<not> is_space (last p)"
    "\<not> is_quote (last p)" "cu CHR ''+'' \<notin> set p" "cu CHR ''`'' \<notin> set p" "0x5C \<notin> set p"
  using assms by (simp_all add: plain_def)

lemma plain_append:
  assumes "plain p" and "plain p'"
  shows "plain (p @ p')"
  using assms by (simp add: plain_def)

text \<open>The two clean-ups on a text they have nothing to do with.\<close>

lemma sanitizeContent_plain:
  assumes "plain p"
  shows "sanitizeContent (JSString p) = Inr p"
  using plain_parts [OF assms]
  by (simp add: sanitizeContent_def strip_concat_no_plus strip_fences_no_backtick
        strip_outer_quotes_none strip_backticks_none unescape_newlines_none trim_none)

lemma sanitizeContent_src_plain:
  assumes "plain p"
  shows "sanitizeContent_src (JSString p) = Inr p"
  using plain_parts [OF assms]
  by (simp add: sanitizeContent_src_def strip_concat_no_plus strip_fences_no_backtick trim_none)

text \<open>A fenced text: both clean-ups take the fences and the line ends around it away.\<close>

lemma fenced_after_concat:
  assumes "plain p"
  shows "strip_fences True (strip_concat (js ''```json'' @ 0x0A # p @ 0x0A # js ''```''))
           = 0x0A # p @ [0x0A]"
proof -
  note pp = plain_parts [OF assms]
  have "strip_concat (js ''```json'' @ 0x0A # p @ 0x0A # js ''```'')
          = js ''```json'' @ 0x0A # p @ 0x0A # js ''```''"
    using pp(6) by (intro strip_concat_no_plus) simp
  moreover have "strip_fences True (js ''```json'' @ 0x0A # p @ 0x0A # js ''```'')
                   = strip_fences False ((0x0A # p @ [0x0A]) @ js ''```'')"
    by simp
  moreover have "strip_fences False ((0x0A # p @ [0x0A]) @ js ''```'')
                   = (0x0A # p @ [0x0A]) @ strip_fences True (js ''```'')"
    using pp(7) by (subst strip_fences_prefix) (simp_all add: is_line_terminator_def)
  ultimately show ?thesis by (simp only: strip_fences_closing append_Nil2)
qed

lemma line_feed_is_space: "is_space 0x0A"
  by (simp add: is_space_def)

lemma sanitizeContent_fenced:
  assumes "plain p"
  shows "sanitizeContent (JSString (js ''```json'' @ 0x0A # p @ 0x0A # js ''```'')) = Inr p"
proof -
  note pp = plain_parts [OF assms]
  have q: "strip_outer_quotes (0x0A # p @ [0x0A]) = 0x0A # p @ [0x0A]"
    by (rule strip_outer_quotes_none) (simp_all add: is_quote_def)
  have b: "strip_backticks (0x0A # p @ [0x0A]) = 0x0A # p @ [0x0A]"
    using pp(7) by (intro strip_backticks_none) simp
  have u: "unescape_newlines (0x0A # p @ [0x0A]) = 0x0A # p @ [0x0A]"
    using pp(8) by (intro unescape_newlines_none) simp
  have t: "trim (0x0A # p @ [0x0A]) = p"
    using trim_wrapped [of "[0x0A]" "[0x0A]" p] pp(1,2,4) line_feed_is_space by simp
  show ?thesis
    unfolding sanitizeContent_def jsval.case fenced_after_concat [OF assms] q b u t ..
qed

lemma sanitizeContent_src_fenced:
  assumes "plain p"
  shows "sanitizeContent_src (JSString (js ''```json'' @ 0x0A # p @ 0x0A # js ''```'')) = Inr p"
proof -
  note pp = plain_parts [OF assms]
  have t: "trim (0x0A # p @ [0x0A]) = p"
    using trim_wrapped [of "[0x0A]" "[0x0A]" p] pp(1,2,4) line_feed_is_space by simp
  show ?thesis
    unfolding sanitizeContent_src_def jsval.case fenced_after_concat [OF assms] t ..
qed

text \<open>
  A text between quotes: the clean-up of unnamed/part_000 takes the quotes away, the one
  of src/snipJson.js leaves them.
\<close>

lemma quoted_after_fences:
  assumes "plain p" and "is_quote q" and "is_quote q'"
  shows "strip_fences True (strip_concat (q # p @ [q'])) = q # p @ [q']"
proof -
  note pp = plain_parts [OF assms(1)]
  have "strip_concat (q # p @ [q']) = q # p @ [q']"
    using pp(6) assms(2,3) by (intro strip_concat_no_plus) (auto simp: is_quote_def)
  moreover have "strip_fences True (q # p @ [q']) = q # p @ [q']"
    using pp(7) assms(2,3) by (intro strip_fences_no_backtick) (auto simp: is_quote_def)
  ultimately show ?thesis by simp
qed

lemma sanitizeContent_quoted:
  assumes "plain p" and "is_quote q" and "is_quote q'"
  shows "sanitizeContent (JSString (q # p @ [q'])) = Inr p"
  using plain_parts [OF assms(1)] assms(2,3)
  by (simp add: sanitizeContent_def quoted_after_fences [OF assms] strip_outer_quotes_both
        strip_backticks_none unescape_newlines_none trim_none)

lemma sanitizeContent_src_quoted:
  assumes "plain p" and "is_quote q" and "is_quote q'"
  shows "sanitizeContent_src (JSString (q # p @ [q'])) = Inr (q # p @ [q'])"
proof -
  have "trim (q # p @ [q']) = q # p @ [q']"
    using assms(2,3) by (intro trim_none) (simp_all add: is_quote_not_space)
  then show ?thesis
    by (simp add: sanitizeContent_src_def quoted_after_fences [OF assms])
qed

text \<open>
  A stray backtick: the clean-up of unnamed/part_000 takes it away, the one of
  src/snipJson.js leaves it.
\<close>

lemma backtick_after_fences:
  assumes "plain p" and "plain p'"
  shows "strip_fences True (strip_concat (p @ cu CHR ''`'' # p')) = p @ cu CHR ''`'' # p'"
proof -
  note pp = plain_parts [OF assms(1)] and pp' = plain_parts [OF assms(2)]
  from pp'(1) obtain c rest where p': "p' = c # rest" by (cases p') auto
  with pp'(7) have c: "c \<noteq> cu CHR ''`''" by auto
  have "strip_concat (p @ cu CHR ''`'' # p') = p @ cu CHR ''`'' # p'"
    using pp(6) pp'(6) by (intro strip_concat_no_plus) simp
  moreover have "strip_fences True (p @ cu CHR ''`'' # p')
                   = p @ strip_fences (is_line_terminator (last p)) (cu CHR ''`'' # p')"
    using pp(1,7) by (simp add: strip_fences_prefix)
  moreover have "strip_fences (is_line_terminator (last p)) (cu CHR ''`'' # p')
                   = cu CHR ''`'' # strip_fences False p'"
    unfolding p' using c by (rule strip_fences_stray)
  moreover have "strip_fences False p' = p'"
    using pp'(7) by (rule strip_fences_no_backtick)
  ultimately show ?thesis by simp
qed

lemma hd_last_append:
  assumes "p \<noteq> []" and "p' \<noteq> []"
  shows "hd (p @ x @ p') = hd p" and "last (p @ x @ p') = last p'"
  using assms by simp_all

lemma sanitizeContent_backtick:
  assumes "plain p" and "plain p'"
  shows "sanitizeContent (JSString (p @ cu CHR ''`'' # p')) = Inr (p @ p')"
proof -
  note pp = plain_parts [OF assms(1)] and pp' = plain_parts [OF assms(2)]
  have q: "strip_outer_quotes (p @ cu CHR ''`'' # p') = p @ cu CHR ''`'' # p'"
    using pp(1,3) pp'(1,5) hd_last_append [of p p' "[cu CHR ''`'']"]
    by (intro strip_outer_quotes_none) simp_all
  have b: "strip_backticks (p @ cu CHR ''`'' # p') = p @ p'"
    using strip_backticks_none [OF pp(7)] strip_backticks_none [OF pp'(7)]
    by (simp add: strip_backticks_def)
  have "plain (p @ p')" using assms by (rule plain_append)
  note pa = plain_parts [OF this]
  have u: "unescape_newlines (p @ p') = p @ p'"
    using pa(8) by (rule unescape_newlines_none)
  have t: "trim (p @ p') = p @ p'"
    using pa(1,2,4) by (rule trim_none)
  show ?thesis
    unfolding sanitizeContent_def jsval.case backtick_after_fences [OF assms] q b u t ..
qed

lemma sanitizeContent_src_backtick:
  assumes "plain p" and "plain p'"
  shows "sanitizeContent_src (JSString (p @ cu CHR ''`'' # p')) = Inr (p @ cu CHR ''`'' # p')"
proof -
  note pp = plain_parts [OF assms(1)] and pp' = plain_parts [OF assms(2)]
  have t: "trim (p @ cu CHR ''`'' # p') = p @ cu CHR ''`'' # p'"
    using pp(1,2) pp'(1,4) hd_last_append [of p p' "[cu CHR ''`'']"]
    by (intro trim_none) simp_all
  show ?thesis
    unfolding sanitizeContent_src_def jsval.case backtick_after_fences [OF assms] t ..
qed

text \<open>
  An escaped line feed, a backslash and the letter n: the clean-up of unnamed/part_000
  puts a line feed in its place, the one of src/snipJson.js leaves it.
\<close>

lemma escaped_after_fences:
  assumes "plain p" and "plain p'"
  shows "strip_fences True (strip_concat (p @ 0x5C # cu CHR ''n'' # p'))
           = p @ 0x5C # cu CHR ''n'' # p'"
proof -
  note pp = plain_parts [OF assms(1)] and pp' = plain_parts [OF assms(2)]
  have "strip_concat (p @ 0x5C # cu CHR ''n'' # p') = p @ 0x5C # cu CHR ''n'' # p'"
    using pp(6) pp'(6) by (intro strip_concat_no_plus) simp
  moreover have "strip_fences True (p @ 0x5C # cu CHR ''n'' # p') = p @ 0x5C # cu CHR ''n'' # p'"
    using pp(7) pp'(7) by (intro strip_fences_no_backtick) simp
  ultimately show ?thesis by simp
qed

lemma sanitizeContent_escaped:
  assumes "plain p" and "plain p'"
  shows "sanitizeContent (JSString (p @ 0x5C # cu CHR ''n'' # p')) = Inr (p @ 0x0A # p')"
proof -
  note pp = plain_parts [OF assms(1)] and pp' = plain_parts [OF assms(2)]
  have q: "strip_outer_quotes (p @ 0x5C # cu CHR ''n'' # p') = p @ 0x5C # cu CHR ''n'' # p'"
    using pp(1,3) pp'(1,5) hd_last_append [of p p' "[0x5C, cu CHR ''n'']"]
    by (intro strip_outer_quotes_none) simp_all
  have b: "strip_backticks (p @ 0x5C # cu CHR ''n'' # p') = p @ 0x5C # cu CHR ''n'' # p'"
    using pp(7) pp'(7) by (intro strip_backticks_none) simp
  have u: "unescape_newlines (p @ 0x5C # cu CHR ''n'' # p') = p @ 0x0A # p'"
    using unescape_newlines_prefix [OF pp(8), of p'] unescape_newlines_none [OF pp'(8)]
    by simp
  have t: "trim (p @ 0x0A # p') = p @ 0x0A # p'"
    using pp(1,2) pp'(1,4) hd_last_append [of p p' "[0x0A]"]
    by (intro trim_none) simp_all
  show ?thesis
    unfolding sanitizeContent_def jsval.case escaped_after_fences [OF assms] q b u t ..
qed

lemma sanitizeContent_src_escaped:
  assumes "plain p" and "plain p'"
  shows "sanitizeContent_src (JSString (p @ 0x5C # cu CHR ''n'' # p'))
           = Inr (p @ 0x5C # cu CHR ''n'' # p')"
proof -
  note pp = plain_parts [OF assms(1)] and pp' = plain_parts [OF assms(2)]
  have t: "trim (p @ 0x5C # cu CHR ''n'' # p') = p @ 0x5C # cu CHR ''n'' # p'"
    using pp(1,2) pp'(1,4) hd_last_append [of p p' "[0x5C, cu CHR ''n'']"]
    by (intro trim_none) simp_all
  show ?thesis
    unfolding sanitizeContent_src_def jsval.case escaped_after_fences [OF assms] t ..
qed

text \<open>
  A string-concatenation artifact, a quote, a plus sign and a quote with any white space
  between them: both clean-ups take it away.
\<close>

lemma strip_concat_artifact:
  assumes "plain p" and "plain p'" and "is_quote q" and "is_quote q'"
    and "\<forall>x\<in>set sp. is_space x" and "\<forall>x\<in>set sp'. is_space x"
  shows "strip_concat (p @ q # sp @ cu CHR ''+'' # sp' @ q' # p') = p @ p'"
proof -
  note pp = plain_parts [OF assms(1)] and pp' = plain_parts [OF assms(2)]
  have "strip_concat (p @ q # sp @ cu CHR ''+'' # sp' @ q' # p')
          = p @ strip_concat (q # sp @ cu CHR ''+'' # sp' @ q' # p')"
    using pp(6) is_quote_not_space [OF assms(3)] is_quote_not_plus [OF assms(3)]
    by (rule strip_concat_prefix)
  moreover have "strip_concat (q # sp @ cu CHR ''+'' # sp' @ q' # p') = strip_concat p'"
    using match_concat_artifact [OF assms(3) assms(5) assms(6) assms(4)]
    by (rule strip_concat_drop)
  moreover have "strip_concat p' = p'" using pp'(6) by (rule strip_concat_no_plus)
  ultimately show ?thesis by simp
qed

lemma sanitizeContent_artifact:
  assumes "plain p" and "plain p'" and "is_quote q" and "is_quote q'"
    and "\<forall>x\<in>set sp. is_space x" and "\<forall>x\<in>set sp'. is_space x"
  shows "sanitizeContent (JSString (p @ q # sp @ cu CHR ''+'' # sp' @ q' # p')) = Inr (p @ p')"
proof -
  have "plain (p @ p')" using assms(1,2) by (rule plain_append)
  note pa = plain_parts [OF this]
  show ?thesis
    unfolding sanitizeContent_def jsval.case strip_concat_artifact [OF assms]
    using pa
    by (simp add: strip_fences_no_backtick strip_outer_quotes_none strip_backticks_none
          unescape_newlines_none trim_none)
qed

lemma sanitizeContent_src_artifact:
  assumes "plain p" and "plain p'" and "is_quote q" and "is_quote q'"
    and "\<forall>x\<in>set sp. is_space x" and "\<forall>x\<in>set sp'. is_space x"
  shows "sanitizeContent_src (JSString (p @ q # sp @ cu CHR ''+'' # sp' @ q' # p')) = Inr (p @ p')"
proof -
  have "plain (p @ p')" using assms(1,2) by (rule plain_append)
  note pa = plain_parts [OF this]
  show ?thesis
    unfolding sanitizeContent_src_def jsval.case strip_concat_artifact [OF assms]
    using pa by (simp add: strip_fences_no_backtick trim_none)
qed

text \<open>What every text is like after the clean-up of unnamed/part_000.\<close>

lemma trim_is_part: "\<exists>a b. s = a @ trim s @ b"
proof -
  have "s = takeWhile is_space s @ dropWhile is_space s" by simp
  moreover have "rev (dropWhile is_space s)
                   = takeWhile is_space (rev (dropWhile is_space s))
                     @ dropWhile is_space (rev (dropWhile is_space s))" by simp
  then have "dropWhile is_space s
               = trim s @ rev (takeWhile is_space (rev (dropWhile is_space s)))"
    unfolding trim_def by (metis rev_append rev_rev_ident)
  ultimately have "s = takeWhile is_space s @ trim s
                        @ rev (takeWhile is_space (rev (dropWhile is_space s)))"
    by simp
  then show ?thesis by blast
qed

lemma set_trim: "set (trim s) \<subseteq> set s"
proof -
  obtain a b where "s = a @ trim s @ b" using trim_is_part by blast
  then have "set s = set a \<union> set (trim s) \<union> set b" by (metis set_append sup_assoc)
  then show ?thesis by blast
qed

lemma trim_trimmed:
  "trim s = [] \<or> (\<not> is_space (hd (trim s)) \<and> \<not> is_space (last (trim s)))"
proof (cases "trim s = []")
  case True
  then show ?thesis by simp
next
  case False
  define d where "d = dropWhile is_space s"
  define t where "t = dropWhile is_space (rev d)"
  have ts: "trim s = rev t" by (simp add: trim_def t_def d_def)
  with False have t: "t \<noteq> []" by simp
  then have "\<not> is_space (hd t)" unfolding t_def by (rule hd_dropWhile)
  with t have l: "\<not> is_space (last (trim s))" by (simp add: ts last_rev)
  have "rev d = takeWhile is_space (rev d) @ t" by (simp add: t_def)
  with t have "last (rev d) = last t" by (metis last_appendR)
  moreover from t have "d \<noteq> []" unfolding t_def by auto
  ultimately have "last t = hd d" by (simp add: last_rev)
  moreover from \<open>d \<noteq> []\<close> have "\<not> is_space (hd d)" unfolding d_def by (rule hd_dropWhile)
  ultimately have "\<not> is_space (hd (trim s))" using t by (simp add: ts hd_rev)
  with l show ?thesis by simp
qed

lemma set_unescape_newlines: "set (unescape_newlines s) \<subseteq> insert 0x0A (set s)"
  by (induction s rule: unescape_newlines.induct) auto

lemma unescape_newlines_head:
  "unescape_newlines (c # s) \<noteq> [] \<and> (hd (unescape_newlines (c # s)) = c
     \<or> hd (unescape_newlines (c # s)) = 0x0A)"
  by (cases s) simp_all

lemma unescape_newlines_leaves_none:
  "unescape_newlines s \<noteq> u @ 0x5C # cu CHR ''n'' # w"
proof (induction s arbitrary: u rule: unescape_newlines.induct)
  case (1 b n rest)
  show ?case
  proof (cases "b = 0x5C \<and> n = cu CHR ''n''")
    case True
    then have r: "unescape_newlines (b # n # rest) = 0x0A # unescape_newlines rest" by simp
    show ?thesis
    proof
      assume "unescape_newlines (b # n # rest) = u @ 0x5C # cu CHR ''n'' # w"
      with r have e: "0x0A # unescape_newlines rest = u @ 0x5C # cu CHR ''n'' # w" by simp
      then obtain u' where "u = 0x0A # u'" by (cases u) auto
      with e have "unescape_newlines rest = u' @ 0x5C # cu CHR ''n'' # w" by simp
      with 1(1) [OF True] show False by blast
    qed
  next
    case False
    then have r: "unescape_newlines (b # n # rest) = b # unescape_newlines (n # rest)" by auto
    show ?thesis
    proof
      assume "unescape_newlines (b # n # rest) = u @ 0x5C # cu CHR ''n'' # w"
      with r have e: "b # unescape_newlines (n # rest) = u @ 0x5C # cu CHR ''n'' # w" by simp
      show False
      proof (cases u)
        case Nil
        with e have b: "b = 0x5C" and h: "hd (unescape_newlines (n # rest)) = cu CHR ''n''"
          by simp_all
        with False have "n \<noteq> cu CHR ''n''" by simp
        with h unescape_newlines_head [of n rest] show False by auto
      next
        case (Cons x u')
        with e have "unescape_newlines (n # rest) = u' @ 0x5C # cu CHR ''n'' # w" by simp
        with 1(2) [OF False] show False by blast
      qed
    qed
  qed
qed (simp_all add: Cons_eq_append_conv)

lemma sanitizeContent_result:
  assumes "sanitizeContent (JSString input) = Inr c"
  shows "cu CHR ''`'' \<notin> set c"
    and "c = [] \<or> (\<not> is_space (hd c) \<and> \<not> is_space (last c))"
    and "c \<noteq> u @ 0x5C # cu CHR ''n'' # w"
proof -
  define s1 where "s1 = strip_outer_quotes (strip_fences True (strip_concat input))"
  define s2 where "s2 = unescape_newlines (strip_backticks s1)"
  from assms have c: "c = trim s2" by (simp add: sanitizeContent_def s1_def s2_def)
  have "cu CHR ''`'' \<notin> set (strip_backticks s1)" by (simp add: strip_backticks_def)
  with set_unescape_newlines [of "strip_backticks s1"] have "cu CHR ''`'' \<notin> set s2"
    unfolding s2_def by auto
  with set_trim [of s2] show "cu CHR ''`'' \<notin> set c" unfolding c by auto
  show "c = [] \<or> (\<not> is_space (hd c) \<and> \<not> is_space (last c))"
    unfolding c by (rule trim_trimmed)
  show "c \<noteq> u @ 0x5C # cu CHR ''n'' # w"
  proof
    assume e: "c = u @ 0x5C # cu CHR ''n'' # w"
    obtain a b where "s2 = a @ trim s2 @ b" using trim_is_part by blast
    with e c have "s2 = (a @ u) @ 0x5C # cu CHR ''n'' # (w @ b)" by simp
    then show False unfolding s2_def using unescape_newlines_leaves_none by blast
  qed
qed

lemma sanitizeContent_src_result:
  assumes "sanitizeContent_src (JSString input) = Inr c"
  shows "c = [] \<or> (\<not> is_space (hd c) \<and> \<not> is_space (last c))"
  using assms trim_trimmed [of "strip_fences True (strip_concat input)"]
  by (auto simp: sanitizeContent_src_def)

text \<open>
  The steps behind the clean-up work on the text they are handed as it is: \<^verbatim>\<open>raw\<close>, when
  it is set, is a slice of that text from the candidate start on, or, when the one
  missing closing delimiter was added and the result did not decode, the text from the
  candidate start on with that delimiter behind it.
\<close>

lemma drop_is_slice: "drop start c = slice c start (length c)"
  by (simp add: slice_def)

lemma extract_json_raw:
  "raw (extract_json parse c) = JSNull
   \<or> (\<exists>start e. locate_start c = Some start
          \<and> raw (extract_json parse c) = JSString (slice c start e))
   \<or> (\<exists>start popped. locate_start c = Some start
          \<and> raw (extract_json parse c) = JSString (drop start c @ closer_text popped))"
proof (cases "locate_start c")
  case None
  then show ?thesis by (simp add: extract_json_def)
next
  case (Some start)
  show ?thesis
  proof (cases "fast_path parse c start")
    case fast: (Some v)
    with Some show ?thesis by (simp add: extract_json_def)
  next
    case slow: None
    show ?thesis
    proof (cases "scan c start []")
      case (Mismatch i)
      with Some slow have "raw (extract_json parse c) = JSString (slice c start (i + 1))"
        by (simp add: extract_json_def)
      with Some show ?thesis by blast
    next
      case (Balanced e)
      with Some slow have "raw (extract_json parse c) = JSNull
        \<or> raw (extract_json parse c) = JSString (slice c start (e + 1))"
        by (simp add: extract_json_def Let_def split: sum.splits)
      with Some show ?thesis by blast
    next
      case (Unclosed stack)
      show ?thesis
      proof (cases "\<exists>popped. stack = [popped]")
        case True
        then obtain popped where "stack = [popped]" by blast
        with Some slow Unclosed have "raw (extract_json parse c) = JSNull
          \<or> raw (extract_json parse c) = JSString (drop start c @ closer_text popped)"
          by (simp add: extract_json_def Let_def split: sum.splits)
        with Some show ?thesis by blast
      next
        case False
        with Some slow Unclosed
        have "raw (extract_json parse c) = JSString (drop start c)"
          by (cases stack; cases "tl stack") (simp_all add: extract_json_def)
        then have "raw (extract_json parse c) = JSString (slice c start (length c))"
          by (simp only: drop_is_slice)
        with Some show ?thesis by blast
      qed
    qed
  qed
qed

lemma extract_json_src_raw:
  "raw (extract_json_src parse c) = JSNull
   \<or> (\<exists>start e. locate_start c = Some start
          \<and> raw (extract_json_src parse c) = JSString (slice c start e))
   \<or> (\<exists>start e popped. locate_start c = Some start
          \<and> raw (extract_json_src parse c) = JSString (slice c start e @ closer_text popped))"
proof (cases "locate_start c")
  case None
  then show ?thesis by (simp add: extract_json_src_def)
next
  case (Some start)
  define eb where "eb = (case PAIRS (c ! start) of None \<Rightarrow> None
                          | Some closing \<Rightarrow> lastIndexOf c closing)"
  define first where "first = (case eb of None \<Rightarrow> []
                                | Some e \<Rightarrow> slice c start (e + 1))"
  show ?thesis
  proof (cases "case eb of None \<Rightarrow> False | Some e \<Rightarrow> e \<le> start")
    case True
    with Some show ?thesis
      by (simp add: extract_json_src_def Let_def eb_def [symmetric])
  next
    case gone: False
    show ?thesis
    proof (cases "parse first")
      case (Inr v)
      with Some gone show ?thesis
        by (simp add: extract_json_src_def Let_def eb_def [symmetric] first_def [symmetric])
    next
      case (Inl msg1)
      show ?thesis
      proof (cases "scan_src c start [] (- 1)")
        case (Mismatch_src jsonEnd)
        with Some gone Inl
        have "raw (extract_json_src parse c) = JSString (slice c start (nat (jsonEnd + 1)))"
          by (simp add: extract_json_src_def Let_def eb_def [symmetric] first_def [symmetric])
        with Some show ?thesis by blast
      next
        case (Finished stack jsonEnd)
        show ?thesis
        proof (cases "length stack > 1")
          case True
          with Some gone Inl Finished
          have "raw (extract_json_src parse c) = JSString (slice c start (nat (jsonEnd + 1)))"
            by (simp add: extract_json_src_def Let_def eb_def [symmetric] first_def [symmetric])
          with Some show ?thesis by blast
        next
          case short: False
          show ?thesis
          proof (cases stack)
            case Nil
            with Some gone Inl Finished short
            have "raw (extract_json_src parse c) = JSNull
              \<or> raw (extract_json_src parse c) = JSString (slice c start (nat (jsonEnd + 1)))"
              by (simp add: extract_json_src_def Let_def eb_def [symmetric]
                    first_def [symmetric] split: sum.splits)
            with Some show ?thesis by blast
          next
            case (Cons popped rest)
            with Some gone Inl Finished short
            have "raw (extract_json_src parse c) = JSNull
              \<or> raw (extract_json_src parse c)
                    = JSString (slice c start (nat (jsonEnd + 1)) @ closer_text popped)"
              by (simp add: extract_json_src_def Let_def eb_def [symmetric]
                    first_def [symmetric] split: sum.splits)
            with Some show ?thesis by blast
          qed
        qed
      qed
    qed
  qed
qed

subsection \<open>The engine on the cleaned text\<close>

text \<open>
  The steps consult the decoder on slices of their text from the candidate start on, and
  on the text from the candidate start on with the added closing delimiter, and on
  nothing else: two decoders that agree on these texts give the same Result.
\<close>

lemma fast_path_decodes_slices:
  assumes "\<And>e. parse (slice c start e) = parse' (slice c start e)"
  shows "fast_path parse c start = fast_path parse' c start"
  by (simp add: fast_path_def assms split: option.splits)

lemma extract_json_decodes_slices:
  assumes l: "locate_start c = Some start"
    and s: "\<And>e. parse (slice c start e) = parse' (slice c start e)"
    and r: "\<And>popped. parse (drop start c @ closer_text popped)
                           = parse' (drop start c @ closer_text popped)"
  shows "extract_json parse c = extract_json parse' c"
proof -
  have f: "fast_path parse c start = fast_path parse' c start"
    using s by (rule fast_path_decodes_slices)
  show ?thesis
  proof (cases "scan c start []")
    case (Mismatch i)
    with l f show ?thesis by (simp add: extract_json_def split: option.splits)
  next
    case (Balanced e)
    with l f s [of "e + 1"] show ?thesis by (simp add: extract_json_def Let_def split: option.splits)
  next
    case (Unclosed stack)
    show ?thesis
    proof (cases "\<exists>popped. stack = [popped]")
      case True
      then obtain popped where "stack = [popped]" by blast
      with l f Unclosed r [of popped] show ?thesis by (simp add: extract_json_def Let_def split: option.splits)
    next
      case False
      with l f Unclosed show ?thesis
        by (cases stack; cases "tl stack") (simp_all add: extract_json_def split: option.splits)
    qed
  qed
qed

lemma extract_json_src_decodes_slices:
  assumes l: "locate_start c = Some start"
    and s: "\<And>e. parse (slice c start e) = parse' (slice c start e)"
    and r: "\<And>popped. parse (drop start c @ closer_text popped)
                           = parse' (drop start c @ closer_text popped)"
  shows "extract_json_src parse c = extract_json_src parse' c"
proof -
  define eb where "eb = (case PAIRS (c ! start) of None \<Rightarrow> None
                          | Some closing \<Rightarrow> lastIndexOf c closing)"
  define first where "first = (case eb of None \<Rightarrow> []
                                | Some e \<Rightarrow> slice c start (e + 1))"
  from l have inside: "start < length c" by (rule locate_start_Some)
  have "parse [] = parse' []" using s [of 0] by (simp add: slice_def)
  then have p1: "parse first = parse' first"
    by (simp add: first_def s split: option.splits)
  show ?thesis
  proof (cases "case eb of None \<Rightarrow> False | Some e \<Rightarrow> e \<le> start")
    case True
    with l show ?thesis by (simp add: extract_json_src_def Let_def eb_def [symmetric])
  next
    case gone: False
    show ?thesis
    proof (cases "scan_src c start [] (- 1)")
      case (Mismatch_src jsonEnd)
      with l gone p1 show ?thesis
        by (simp add: extract_json_src_def Let_def eb_def [symmetric] first_def [symmetric]
              split: sum.splits)
    next
      case (Finished stack jsonEnd)
      with inside have "jsonEnd = int (length c) - 1"
        using scan_src_Finished_jsonEnd by blast
      then have whole: "slice c start (nat (jsonEnd + 1)) = drop start c"
        by (simp add: slice_def)
      show ?thesis
      proof (cases stack)
        case Nil
        with l gone p1 Finished s [of "nat (jsonEnd + 1)"] show ?thesis
          by (simp add: extract_json_src_def Let_def eb_def [symmetric] first_def [symmetric]
                split: sum.splits)
      next
        case (Cons popped rest)
        with l gone p1 Finished r [of popped] whole show ?thesis
          by (simp add: extract_json_src_def Let_def eb_def [symmetric] first_def [symmetric]
                split: sum.splits)
      qed
    qed
  qed
qed

lemma snipJson_on:
  assumes "input \<noteq> []" and "sanitizeContent (JSString input :: 'v jsval) = Inr c"
  shows "snipJson (parse :: jsstring \<Rightarrow> jsstring + 'v) (JSString input)
           = Inr (extract_json parse c)"
  using assms by (simp add: snipJson_def)

lemma snipJson_src_on:
  assumes "sanitizeContent_src (JSString input :: 'v jsval) = Inr c" and "c \<noteq> []"
  shows "snipJson_src (parse :: jsstring \<Rightarrow> jsstring + 'v) (JSString input)
           = Inr (extract_json_src parse c)"
  using assms by (simp add: snipJson_src_def)

lemma plain_append_nonempty:
  assumes "plain p" and "plain p'"
  shows "p @ x @ p' \<noteq> []"
  using assms by (simp add: plain_def)

text \<open>
  C6 as amended. The engine does clean its input, and then works on the cleaned text as
  it is. Let \<open>p\<close> and \<open>p'\<close> be texts that the clean-up has nothing to do with. The engine of
  unnamed/part_000 returns for \<open>p\<close> what its steps make of \<open>p\<close>, and the same for \<open>p\<close>
  between code fences and for \<open>p\<close> between quotes; for \<open>p\<close> and \<open>p'\<close> with a backtick or a
  string-concatenation artifact between them it returns what its steps make of \<open>p\<close>
  followed by \<open>p'\<close>, and with an escaped line feed between them what they make of the two
  with a line feed between them. For every input that is not empty it returns what its
  steps make of the cleaned text, which holds no backtick and no escaped line feed and
  neither starts nor ends with white space. The copy in src/snipJson.js takes away code
  fences, artifacts and the white space around the text, and leaves quotes, backticks
  and escaped line feeds. In both, the steps behind the clean-up do no cleaning of their
  own: \<^verbatim>\<open>raw\<close> is cut from the cleaned text (it is null, or a slice from the candidate
  start on, or such a slice with the closing delimiter that the engine added), and the
  decoder is consulted on such texts only, so two decoders that agree on them give the
  same Result.
\<close>

theorem snipJson_cleans_its_input:
  "(plain p \<longrightarrow> snipJson parse (JSString p) = Inr (extract_json parse p))
   \<and> (plain p \<longrightarrow>
        snipJson parse (JSString (js ''```json'' @ 0x0A # p @ 0x0A # js ''```''))
          = Inr (extract_json parse p))
   \<and> (plain p \<and> is_quote q \<and> is_quote q' \<longrightarrow>
        snipJson parse (JSString (q # p @ [q'])) = Inr (extract_json parse p))
   \<and> (plain p \<and> plain p' \<longrightarrow>
        snipJson parse (JSString (p @ cu CHR ''`'' # p')) = Inr (extract_json parse (p @ p')))
   \<and> (plain p \<and> plain p' \<longrightarrow>
        snipJson parse (JSString (p @ 0x5C # cu CHR ''n'' # p'))
          = Inr (extract_json parse (p @ 0x0A # p')))
   \<and> (plain p \<and> plain p' \<and> is_quote q \<and> is_quote q'
        \<and> (\<forall>x\<in>set sp. is_space x) \<and> (\<forall>x\<in>set sp'. is_space x) \<longrightarrow>
        snipJson parse (JSString (p @ q # sp @ cu CHR ''+'' # sp' @ q' # p'))
          = Inr (extract_json parse (p @ p')))
   \<and> (input \<noteq> [] \<and> sanitizeContent (JSString input :: 'v jsval) = Inr c \<longrightarrow>
        snipJson (parse :: jsstring \<Rightarrow> jsstring + 'v) (JSString input)
          = Inr (extract_json parse c)
        \<and> cu CHR ''`'' \<notin> set c
        \<and> (c = [] \<or> (\<not> is_space (hd c) \<and> \<not> is_space (last c)))
        \<and> (\<forall>u w. c \<noteq> u @ 0x5C # cu CHR ''n'' # w))
   \<and> (raw (extract_json parse c) = JSNull
        \<or> (\<exists>start e. locate_start c = Some start
               \<and> raw (extract_json parse c) = JSString (slice c start e))
        \<or> (\<exists>start popped. locate_start c = Some start
               \<and> raw (extract_json parse c) = JSString (drop start c @ closer_text popped)))
   \<and> (locate_start c = Some start'
        \<and> (\<forall>e. parse (slice c start' e) = parse' (slice c start' e))
        \<and> (\<forall>popped. parse (drop start' c @ closer_text popped)
                         = parse' (drop start' c @ closer_text popped)) \<longrightarrow>
        extract_json parse c = extract_json parse' c)
   \<and> (plain p \<longrightarrow> snipJson_src parse (JSString p) = Inr (extract_json_src parse p))
   \<and> (plain p \<longrightarrow>
        snipJson_src parse (JSString (js ''```json'' @ 0x0A # p @ 0x0A # js ''```''))
          = Inr (extract_json_src parse p))
   \<and> (plain p \<and> plain p' \<and> is_quote q \<and> is_quote q'
        \<and> (\<forall>x\<in>set sp. is_space x) \<and> (\<forall>x\<in>set sp'. is_space x) \<longrightarrow>
        snipJson_src parse (JSString (p @ q # sp @ cu CHR ''+'' # sp' @ q' # p'))
          = Inr (extract_json_src parse (p @ p')))
   \<and> (plain p \<and> is_quote q \<and> is_quote q' \<longrightarrow>
        snipJson_src parse (JSString (q # p @ [q'])) = Inr (extract_json_src parse (q # p @ [q'])))
   \<and> (plain p \<and> plain p' \<longrightarrow>
        snipJson_src parse (JSString (p @ cu CHR ''`'' # p'))
          = Inr (extract_json_src parse (p @ cu CHR ''`'' # p')))
   \<and> (plain p \<and> plain p' \<longrightarrow>
        snipJson_src parse (JSString (p @ 0x5C # cu CHR ''n'' # p'))
          = Inr (extract_json_src parse (p @ 0x5C # cu CHR ''n'' # p')))
   \<and> (sanitizeContent_src (JSString input :: 'v jsval) = Inr c \<and> c \<noteq> [] \<longrightarrow>
        snipJson_src parse (JSString input) = Inr (extract_json_src parse c)
        \<and> \<not> is_space (hd c) \<and> \<not> is_space (last c))
   \<and> (raw (extract_json_src parse c) = JSNull
        \<or> (\<exists>start e. locate_start c = Some start
               \<and> raw (extract_json_src parse c) = JSString (slice c start e))
        \<or> (\<exists>start e popped. locate_start c = Some start
               \<and> raw (extract_json_src parse c)
                   = JSString (slice c start e @ closer_text popped)))
   \<and> (locate_start c = Some start'
        \<and> (\<forall>e. parse (slice c start' e) = parse' (slice c start' e))
        \<and> (\<forall>popped. parse (drop start' c @ closer_text popped)
                         = parse' (drop start' c @ closer_text popped)) \<longrightarrow>
        extract_json_src parse c = extract_json_src parse' c)"
proof (intro conjI impI allI; (elim conjE)?)
  assume p: "plain p"
  then have ne: "p \<noteq> []" by (simp add: plain_def)
  from ne sanitizeContent_plain [OF p]
  show "snipJson parse (JSString p) = Inr (extract_json parse p)" by (rule snipJson_on)
next
  assume p: "plain p"
  show "snipJson parse (JSString (js ''```json'' @ 0x0A # p @ 0x0A # js ''```''))
          = Inr (extract_json parse p)"
    by (rule snipJson_on [OF _ sanitizeContent_fenced [OF p]]) simp
next
  assume "plain p" "is_quote q" "is_quote q'"
  then have "sanitizeContent (JSString (q # p @ [q']) :: 'v jsval) = Inr p"
    by (rule sanitizeContent_quoted)
  then show "snipJson parse (JSString (q # p @ [q'])) = Inr (extract_json parse p)"
    by (rule snipJson_on [rotated]) simp
next
  assume "plain p" "plain p'"
  then have "sanitizeContent (JSString (p @ cu CHR ''`'' # p') :: 'v jsval) = Inr (p @ p')"
    by (rule sanitizeContent_backtick)
  then show "snipJson parse (JSString (p @ cu CHR ''`'' # p')) = Inr (extract_json parse (p @ p'))"
    by (rule snipJson_on [rotated]) simp
next
  assume "plain p" "plain p'"
  then have "sanitizeContent (JSString (p @ 0x5C # cu CHR ''n'' # p') :: 'v jsval)
               = Inr (p @ 0x0A # p')"
    by (rule sanitizeContent_escaped)
  then show "snipJson parse (JSString (p @ 0x5C # cu CHR ''n'' # p'))
          = Inr (extract_json parse (p @ 0x0A # p'))"
    by (rule snipJson_on [rotated]) simp
next
  assume "plain p" "plain p'" "is_quote q" "is_quote q'"
    "\<forall>x\<in>set sp. is_space x" "\<forall>x\<in>set sp'. is_space x"
  then have "sanitizeContent (JSString (p @ q # sp @ cu CHR ''+'' # sp' @ q' # p') :: 'v jsval)
               = Inr (p @ p')"
    by (rule sanitizeContent_artifact)
  then show "snipJson parse (JSString (p @ q # sp @ cu CHR ''+'' # sp' @ q' # p'))
          = Inr (extract_json parse (p @ p'))"
    by (rule snipJson_on [rotated]) simp
next
  assume "input \<noteq> []" "sanitizeContent (JSString input :: 'v jsval) = Inr c"
  then show "snipJson parse (JSString input) = Inr (extract_json parse c)"
    by (rule snipJson_on)
next
  assume "sanitizeContent (JSString input :: 'v jsval) = Inr c"
  then show "cu CHR ''`'' \<notin> set c" by (rule sanitizeContent_result(1))
next
  assume "sanitizeContent (JSString input :: 'v jsval) = Inr c"
  then show "c = [] \<or> (\<not> is_space (hd c) \<and> \<not> is_space (last c))"
    by (rule sanitizeContent_result(2))
next
  fix u w
  assume "sanitizeContent (JSString input :: 'v jsval) = Inr c"
  then show "c \<noteq> u @ 0x5C # cu CHR ''n'' # w" by (rule sanitizeContent_result(3))
next
  show "raw (extract_json parse c) = JSNull
        \<or> (\<exists>start e. locate_start c = Some start
               \<and> raw (extract_json parse c) = JSString (slice c start e))
        \<or> (\<exists>start popped. locate_start c = Some start
               \<and> raw (extract_json parse c) = JSString (drop start c @ closer_text popped))"
    by (rule extract_json_raw)
next
  assume l: "locate_start c = Some start'"
    and s: "\<forall>e. parse (slice c start' e) = parse' (slice c start' e)"
    and r: "\<forall>popped. parse (drop start' c @ closer_text popped)
                         = parse' (drop start' c @ closer_text popped)"
  show "extract_json parse c = extract_json parse' c"
    by (rule extract_json_decodes_slices [OF l]) (simp_all add: s r)
next
  assume p: "plain p"
  then have ne: "p \<noteq> []" by (simp add: plain_def)
  from sanitizeContent_src_plain [OF p] ne
  show "snipJson_src parse (JSString p) = Inr (extract_json_src parse p)"
    by (rule snipJson_src_on)
next
  assume p: "plain p"
  then have ne: "p \<noteq> []" by (simp add: plain_def)
  from sanitizeContent_src_fenced [OF p] ne
  show "snipJson_src parse (JSString (js ''```json'' @ 0x0A # p @ 0x0A # js ''```''))
          = Inr (extract_json_src parse p)"
    by (rule snipJson_src_on)
next
  assume a: "plain p" "plain p'" "is_quote q" "is_quote q'"
    "\<forall>x\<in>set sp. is_space x" "\<forall>x\<in>set sp'. is_space x"
  then have "sanitizeContent_src (JSString (p @ q # sp @ cu CHR ''+'' # sp' @ q' # p') :: 'v jsval)
               = Inr (p @ p')"
    by (rule sanitizeContent_src_artifact)
  moreover from a(1) have "p @ p' \<noteq> []" by (simp add: plain_def)
  ultimately show "snipJson_src parse (JSString (p @ q # sp @ cu CHR ''+'' # sp' @ q' # p'))
          = Inr (extract_json_src parse (p @ p'))"
    by (rule snipJson_src_on)
next
  assume "plain p" "is_quote q" "is_quote q'"
  then have "sanitizeContent_src (JSString (q # p @ [q']) :: 'v jsval) = Inr (q # p @ [q'])"
    by (rule sanitizeContent_src_quoted)
  then show "snipJson_src parse (JSString (q # p @ [q'])) = Inr (extract_json_src parse (q # p @ [q']))"
    by (rule snipJson_src_on) simp
next
  assume "plain p" "plain p'"
  then have "sanitizeContent_src (JSString (p @ cu CHR ''`'' # p') :: 'v jsval)
               = Inr (p @ cu CHR ''`'' # p')"
    by (rule sanitizeContent_src_backtick)
  then show "snipJson_src parse (JSString (p @ cu CHR ''`'' # p'))
          = Inr (extract_json_src parse (p @ cu CHR ''`'' # p'))"
    by (rule snipJson_src_on) simp
next
  assume "plain p" "plain p'"
  then have "sanitizeContent_src (JSString (p @ 0x5C # cu CHR ''n'' # p') :: 'v jsval)
               = Inr (p @ 0x5C # cu CHR ''n'' # p')"
    by (rule sanitizeContent_src_escaped)
  then show "snipJson_src parse (JSString (p @ 0x5C # cu CHR ''n'' # p'))
          = Inr (extract_json_src parse (p @ 0x5C # cu CHR ''n'' # p'))"
    by (rule snipJson_src_on) simp
next
  assume "sanitizeContent_src (JSString input :: 'v jsval) = Inr c" "c \<noteq> []"
  then show "snipJson_src parse (JSString input) = Inr (extract_json_src parse c)"
    by (rule snipJson_src_on)
next
  assume "sanitizeContent_src (JSString input :: 'v jsval) = Inr c" "c \<noteq> []"
  with sanitizeContent_src_result show "\<not> is_space (hd c)" by blast
next
  assume "sanitizeContent_src (JSString input :: 'v jsval) = Inr c" "c \<noteq> []"
  with sanitizeContent_src_result show "\<not> is_space (last c)" by blast
next
  show "raw (extract_json_src parse c) = JSNull
        \<or> (\<exists>start e. locate_start c = Some start
               \<and> raw (extract_json_src parse c) = JSString (slice c start e))
        \<or> (\<exists>start e popped. locate_start c = Some start
               \<and> raw (extract_json_src parse c)
                   = JSString (slice c start e @ closer_text popped))"
    by (rule extract_json_src_raw)
next
  assume l: "locate_start c = Some start'"
    and s: "\<forall>e. parse (slice c start' e) = parse' (slice c start' e)"
    and r: "\<forall>popped. parse (drop start' c @ closer_text popped)
                         = parse' (drop start' c @ closer_text popped)"
  show "extract_json_src parse c = extract_json_src parse' c"
    by (rule extract_json_src_decodes_slices [OF l]) (simp_all add: s r)
qed

theorem snipJson_cleans_its_input_witness:
  "plain (js ''{\"a\": 1}'')
   \<and> plain (js ''[2]'')
   \<and> is_quote 0x22
   \<and> is_quote 0x27
   \<and> is_space 0x20
   \<and> is_space 0x0A
   \<and> sanitizeContent (JSString (js ''  [`1,] '') :: json jsval) = Inr (js ''[1,]'')
   \<and> sanitizeContent_src (JSString (js ''  [`1,] '') :: json jsval) = Inr (js ''[`1,]'')
   \<and> snipJson JSON_parse (JSString (js ''{\"a\": 1}'')) =
       Inr \<lparr> status = Success, comments = js ''JSON successfully extracted and parsed.'',
             data = JSObject (JObj [(js ''a'', JNum 1)]), raw = JSNull \<rparr>
   \<and> snipJson JSON_parse (JSString (js ''```json'' @ 0x0A # js ''{\"a\": 1}'' @ 0x0A # js ''```'')) =
       Inr \<lparr> status = Success, comments = js ''JSON successfully extracted and parsed.'',
             data = JSObject (JObj [(js ''a'', JNum 1)]), raw = JSNull \<rparr>
   \<and> snipJson JSON_parse (JSString (0x22 # js ''{\"a\": 1}'' @ [0x27])) =
       Inr \<lparr> status = Success, comments = js ''JSON successfully extracted and parsed.'',
             data = JSObject (JObj [(js ''a'', JNum 1)]), raw = JSNull \<rparr>
   \<and> snipJson JSON_parse (JSString (js ''{\"a\": 1}'' @ cu CHR ''`'' # js ''[2]'')) =
       Inr \<lparr> status = Success, comments = js ''JSON successfully extracted and parsed.'',
             data = JSObject (JObj [(js ''a'', JNum 1)]), raw = JSNull \<rparr>
   \<and> snipJson JSON_parse (JSString (js ''{\"a\": 1}'' @ 0x5C # cu CHR ''n'' # js ''[2]'')) =
       Inr \<lparr> status = Success, comments = js ''JSON successfully extracted and parsed.'',
             data = JSObject (JObj [(js ''a'', JNum 1)]), raw = JSNull \<rparr>
   \<and> snipJson JSON_parse (JSString (js ''{\"a\": 1}'' @ 0x22 # [0x20] @ cu CHR ''+'' # [0x20, 0x0A] @ 0x27 # js ''[2]'')) =
       Inr \<lparr> status = Success, comments = js ''JSON successfully extracted and parsed.'',
             data = JSObject (JObj [(js ''a'', JNum 1)]), raw = JSNull \<rparr>
   \<and> snipJson JSON_parse (JSString (js ''  [`1,] '')) =
       Inr \<lparr> status = Check,
             comments = js ''Structurally valid JSON failed to parse: Unexpected token or end of JSON input'',
             data = JSNull, raw = JSString (js ''[1,]'') \<rparr>
   \<and> snipJson_src JSON_parse (JSString (js ''{\"a\": 1}'')) =
       Inr \<lparr> status = Success, comments = js ''JSON successfully extracted and parsed.'',
             data = JSObject (JObj [(js ''a'', JNum 1)]), raw = JSNull \<rparr>
   \<and> snipJson_src JSON_parse (JSString (js ''```json'' @ 0x0A # js ''{\"a\": 1}'' @ 0x0A # js ''```'')) =
       Inr \<lparr> status = Success, comments = js ''JSON successfully extracted and parsed.'',
             data = JSObject (JObj [(js ''a'', JNum 1)]), raw = JSNull \<rparr>
   \<and> snipJson_src JSON_parse (JSString (0x22 # js ''{\"a\": 1}'' @ [0x27])) =
       Inr \<lparr> status = Success, comments = js ''JSON successfully extracted and parsed.'',
             data = JSObject (JObj [(js ''a'', JNum 1)]), raw = JSNull \<rparr>
   \<and> snipJson_src JSON_parse (JSString (js ''{\"a\": 1}'' @ cu CHR ''`'' # js ''[2]'')) =
       Inr \<lparr> status = Success, comments = js ''JSON successfully extracted and parsed.'',
             data = JSObject (JObj [(js ''a'', JNum 1)]), raw = JSNull \<rparr>
   \<and> snipJson_src JSON_parse (JSString (js ''{\"a\": 1}'' @ 0x5C # cu CHR ''n'' # js ''[2]'')) =
       Inr \<lparr> status = Success, comments = js ''JSON successfully extracted and parsed.'',
             data = JSObject (JObj [(js ''a'', JNum 1)]), raw = JSNull \<rparr>
   \<and> snipJson_src JSON_parse (JSString (js ''{\"a\": 1}'' @ 0x22 # [0x20] @ cu CHR ''+'' # [0x20, 0x0A] @ 0x27 # js ''[2]'')) =
       Inr \<lparr> status = Success, comments = js ''JSON successfully extracted and parsed.'',
             data = JSObject (JObj [(js ''a'', JNum 1)]), raw = JSNull \<rparr>
   \<and> snipJson_src JSON_parse (JSString (js ''  [`1,] '')) =
       Inr \<lparr> status = Check,
             comments =
               js ''Extracted candidate JSON passed bracket validation but failed to parse. Check result.raw. Error : Unexpected token or end of JSON input'',
             data = JSNull, raw = JSString (js ''[`1,]'') \<rparr>
   \<and> locate_start (js ''[1,]'') = Some 0
   \<and> locate_start (js ''[`1,]'') = Some 0
   \<and> extract_json JSON_parse (js ''[1,]'')
       = extract_json (\<lambda>t. Inl (js ''Unexpected token or end of JSON input'')) (js ''[1,]'')
   \<and> extract_json_src JSON_parse (js ''[`1,]'')
       = extract_json_src (\<lambda>t. Inl (js ''Unexpected token or end of JSON input'')) (js ''[`1,]'')"
proof -
  let ?p = "js ''{\"a\": 1}''" and ?p' = "js ''[2]''" and ?input = "js ''  [`1,] ''"
  have p: "plain ?p" and p': "plain ?p'" by code_simp+
  have q: "is_quote 0x22" and q': "is_quote 0x27" by code_simp+
  have sp: "is_space 0x20" and sp': "is_space 0x0A" by code_simp+
  then have spaces: "\<forall>x\<in>set [0x20]. is_space x" "\<forall>x\<in>set [0x20, 0x0A]. is_space x"
    by simp_all
  have ne: "?input \<noteq> []" by simp
  have c: "sanitizeContent (JSString ?input :: json jsval) = Inr (js ''[1,]'')" by code_simp
  have c_src: "sanitizeContent_src (JSString ?input :: json jsval) = Inr (js ''[`1,]'')"
    by code_simp
  have ne_src: "js ''[`1,]'' \<noteq> []" by simp
  have e1: "extract_json JSON_parse ?p =
       \<lparr> status = Success, comments = js ''JSON successfully extracted and parsed.'',
         data = JSObject (JObj [(js ''a'', JNum 1)]), raw = JSNull \<rparr>" by code_simp
  have e2: "extract_json JSON_parse (?p @ ?p') =
       \<lparr> status = Success, comments = js ''JSON successfully extracted and parsed.'',
         data = JSObject (JObj [(js ''a'', JNum 1)]), raw = JSNull \<rparr>" by code_simp
  have e3: "extract_json JSON_parse (?p @ 0x0A # ?p') =
       \<lparr> status = Success, comments = js ''JSON successfully extracted and parsed.'',
         data = JSObject (JObj [(js ''a'', JNum 1)]), raw = JSNull \<rparr>" by code_simp
  have e4: "extract_json JSON_parse (js ''[1,]'') =
       \<lparr> status = Check,
         comments = js ''Structurally valid JSON failed to parse: Unexpected token or end of JSON input'',
         data = JSNull, raw = JSString (js ''[1,]'') \<rparr>" by code_simp
  have s1: "extract_json_src JSON_parse ?p =
       \<lparr> status = Success, comments = js ''JSON successfully extracted and parsed.'',
         data = JSObject (JObj [(js ''a'', JNum 1)]), raw = JSNull \<rparr>" by code_simp
  have s2: "extract_json_src JSON_parse (?p @ ?p') =
       \<lparr> status = Success, comments = js ''JSON successfully extracted and parsed.'',
         data = JSObject (JObj [(js ''a'', JNum 1)]), raw = JSNull \<rparr>" by code_simp
  have s3: "extract_json_src JSON_parse (0x22 # ?p @ [0x27]) =
       \<lparr> status = Success, comments = js ''JSON successfully extracted and parsed.'',
         data = JSObject (JObj [(js ''a'', JNum 1)]), raw = JSNull \<rparr>" by code_simp
  have s4: "extract_json_src JSON_parse (?p @ cu CHR ''`'' # ?p') =
       \<lparr> status = Success, comments = js ''JSON successfully extracted and parsed.'',
         data = JSObject (JObj [(js ''a'', JNum 1)]), raw = JSNull \<rparr>" by code_simp
  have s5: "extract_json_src JSON_parse (?p @ 0x5C # cu CHR ''n'' # ?p') =
       \<lparr> status = Success, comments = js ''JSON successfully extracted and parsed.'',
         data = JSObject (JObj [(js ''a'', JNum 1)]), raw = JSNull \<rparr>" by code_simp
  have s6: "extract_json_src JSON_parse (js ''[`1,]'') =
       \<lparr> status = Check,
         comments =
           js ''Extracted candidate JSON passed bracket validation but failed to parse. Check result.raw. Error : Unexpected token or end of JSON input'',
         data = JSNull, raw = JSString (js ''[`1,]'') \<rparr>" by code_simp
  let ?m = "js ''Unexpected token or end of JSON input''"
  let ?c = "js ''[1,]''" and ?c' = "js ''[`1,]''"
  have l: "locate_start ?c = Some 0" and l': "locate_start ?c' = Some 0" by code_simp+
  have closers: "closer_text popped = [cu CHR ''}''] \<or> closer_text popped = [cu CHR '']'']
                   \<or> closer_text popped = js ''undefined''" for popped
    by (simp add: closer_text_def PAIRS_def)
  have k: "JSON_parse (slice ?c 0 e) = Inl ?m" for e
  proof -
    have k0: "JSON_parse (slice ?c 0 0) = Inl ?m" "JSON_parse (slice ?c 0 1) = Inl ?m"
      "JSON_parse (slice ?c 0 2) = Inl ?m" "JSON_parse (slice ?c 0 3) = Inl ?m"
      "JSON_parse ?c = Inl ?m" by code_simp+
    have big: "4 \<le> e \<Longrightarrow> slice ?c 0 e = ?c" by (simp add: slice_def)
    have "e = 0 \<or> e = 1 \<or> e = 2 \<or> e = 3 \<or> 4 \<le> e" by arith
    then show ?thesis using k0 big by (elim disjE) simp_all
  qed
  have k': "JSON_parse (slice ?c' 0 e) = Inl ?m" for e
  proof -
    have k0: "JSON_parse (slice ?c' 0 0) = Inl ?m" "JSON_parse (slice ?c' 0 1) = Inl ?m"
      "JSON_parse (slice ?c' 0 2) = Inl ?m" "JSON_parse (slice ?c' 0 3) = Inl ?m"
      "JSON_parse (slice ?c' 0 4) = Inl ?m" "JSON_parse ?c' = Inl ?m" by code_simp+
    have big: "5 \<le> e \<Longrightarrow> slice ?c' 0 e = ?c'" by (simp add: slice_def)
    have "e = 0 \<or> e = 1 \<or> e = 2 \<or> e = 3 \<or> e = 4 \<or> 5 \<le> e" by arith
    then show ?thesis using k0 big by (elim disjE) simp_all
  qed
  have t: "JSON_parse (drop 0 ?c @ closer_text popped) = Inl ?m" for popped
  proof -
    have "JSON_parse (drop 0 ?c @ [cu CHR ''}'']) = Inl ?m"
      "JSON_parse (drop 0 ?c @ [cu CHR '']'']) = Inl ?m"
      "JSON_parse (drop 0 ?c @ js ''undefined'') = Inl ?m" by code_simp+
    with closers [of popped] show ?thesis by auto
  qed
  have t': "JSON_parse (drop 0 ?c' @ closer_text popped) = Inl ?m" for popped
  proof -
    have "JSON_parse (drop 0 ?c' @ [cu CHR ''}'']) = Inl ?m"
      "JSON_parse (drop 0 ?c' @ [cu CHR '']'']) = Inl ?m"
      "JSON_parse (drop 0 ?c' @ js ''undefined'') = Inl ?m" by code_simp+
    with closers [of popped] show ?thesis by auto
  qed
  have agree: "\<forall>e. JSON_parse (slice ?c 0 e) = Inl ?m"
    "\<forall>popped. JSON_parse (drop 0 ?c @ closer_text popped) = Inl ?m"
    using k t by blast+
  have agree': "\<forall>e. JSON_parse (slice ?c' 0 e) = Inl ?m"
    "\<forall>popped. JSON_parse (drop 0 ?c' @ closer_text popped) = Inl ?m"
    using k' t' by blast+
  note inst = snipJson_cleans_its_input
    [where p = ?p and p' = ?p' and q = "0x22" and q' = "0x27" and sp = "[0x20]"
       and sp' = "[0x20, 0x0A]" and input = ?input and c = ?c
       and parse = JSON_parse and parse' = "\<lambda>t. Inl ?m" and start' = 0]
  note inst_src = snipJson_cleans_its_input
    [where p = ?p and p' = ?p' and q = "0x22" and q' = "0x27" and sp = "[0x20]"
       and sp' = "[0x20, 0x0A]" and input = ?input and c = ?c'
       and parse = JSON_parse and parse' = "\<lambda>t. Inl ?m" and start' = 0]
  note r1 = inst [THEN conjunct2]
  note r2 = r1 [THEN conjunct2]
  note r3 = r2 [THEN conjunct2]
  note r4 = r3 [THEN conjunct2]
  note r5 = r4 [THEN conjunct2]
  note r6 = r5 [THEN conjunct2]
  note r7 = r6 [THEN conjunct2]
  note r8 = r7 [THEN conjunct2]
  note r9 = r8 [THEN conjunct2]
  note r10 = r9 [THEN conjunct2]
  note r11 = r10 [THEN conjunct2]
  note r12 = r11 [THEN conjunct2]
  note r13 = r12 [THEN conjunct2]
  note r14 = r13 [THEN conjunct2]
  note r15 = inst_src [THEN conjunct2, THEN conjunct2, THEN conjunct2, THEN conjunct2,
    THEN conjunct2, THEN conjunct2, THEN conjunct2, THEN conjunct2, THEN conjunct2,
    THEN conjunct2, THEN conjunct2, THEN conjunct2, THEN conjunct2, THEN conjunct2,
    THEN conjunct2]
  note r17 = r15 [THEN conjunct2, THEN conjunct2]
  note pq = conjI [OF p conjI [OF q q']]
  note pp = conjI [OF p p']
  note all = conjI [OF p conjI [OF p' conjI [OF q conjI [OF q' conjI [OF spaces]]]]]
  note a1 = inst [THEN conjunct1, THEN mp, OF p, unfolded e1]
  note a2 = r1 [THEN conjunct1, THEN mp, OF p, unfolded e1]
  note a3 = r2 [THEN conjunct1, THEN mp, OF pq, unfolded e1]
  note a4 = r3 [THEN conjunct1, THEN mp, OF pp, unfolded e2]
  note a5 = r4 [THEN conjunct1, THEN mp, OF pp, unfolded e3]
  note a6 = r5 [THEN conjunct1, THEN mp, OF all, unfolded e2]
  note a7 = r6 [THEN conjunct1, THEN mp, OF conjI [OF ne c], THEN conjunct1, unfolded e4]
  note d1 = r8 [THEN conjunct1, THEN mp, OF conjI [OF l conjI [OF agree]]]
  note b1 = r9 [THEN conjunct1, THEN mp, OF p, unfolded s1]
  note b2 = r10 [THEN conjunct1, THEN mp, OF p, unfolded s1]
  note b6 = r11 [THEN conjunct1, THEN mp, OF all, unfolded s2]
  note b3 = r12 [THEN conjunct1, THEN mp, OF pq, unfolded s3]
  note b4 = r13 [THEN conjunct1, THEN mp, OF pp, unfolded s4]
  note b5 = r14 [THEN conjunct1, THEN mp, OF pp, unfolded s5]
  note b7 = r15 [THEN conjunct1, THEN mp, OF conjI [OF c_src ne_src], THEN conjunct1,
    unfolded s6]
  note d2 = r17 [THEN mp, OF conjI [OF l' conjI [OF agree']]]
  from p p' q q' sp sp' c c_src a1 a2 a3 a4 a5 a6 a7 b1 b2 b3 b4 b5 b6 b7 l l' d1 d2
  show ?thesis by (intro conjI)
qed

section \<open>The tag loop on a part of its text\<close>

text \<open>
  A tag structure that the loop accepts ends where the loop stops: the text cut there is
  accepted in the same way.
\<close>

lemma char_at_take:
  "char_at (take e xs) j = (if j < e then char_at xs j else None)"
  by (simp add: char_at_def)

lemma read_tag_name_unfold:
  "read_tag_name content i =
     (if i < length content \<and> is_name_char (content ! i)
      then read_tag_name content (i + 1) else i)"
  by (rule read_tag_name.simps)

lemma read_tag_name_take:
  "read_tag_name xs j \<le> e \<Longrightarrow> read_tag_name (take e xs) j = read_tag_name xs j"
proof (induction "length xs - j" arbitrary: j rule: less_induct)
  case less
  show ?case
  proof (cases "j < length xs \<and> is_name_char (xs ! j)")
    case True
    then have eq: "read_tag_name xs j = read_tag_name xs (j + 1)"
      by (subst read_tag_name.simps) simp
    with less.prems read_tag_name_ge [of "j + 1" xs] have je: "j < e" by simp
    from True have "j < length xs" by simp
    then have dec: "length xs - (j + 1) < length xs - j" by simp
    from less.hyps [OF dec] less.prems eq
    have "read_tag_name (take e xs) (j + 1) = read_tag_name xs (j + 1)" by simp
    moreover from True je have "read_tag_name (take e xs) j = read_tag_name (take e xs) (j + 1)"
      by (subst read_tag_name.simps) simp
    ultimately show ?thesis using eq by simp
  next
    case False
    then have "read_tag_name xs j = j" by (subst read_tag_name.simps) auto
    moreover from False have "read_tag_name (take e xs) j = j"
      by (subst read_tag_name.simps) auto
    ultimately show ?thesis by simp
  qed
qed

lemma skip_attributes_take:
  "skip_attributes xs j = (k, sc) \<Longrightarrow>
   (if char_at xs k = Some (cu CHR ''>'') then k + 1 else k) \<le> e \<Longrightarrow>
   skip_attributes (take e xs) j = (k, sc)"
proof (induction "length xs - j" arbitrary: j rule: less_induct)
  case less
  from less.prems(2) have ke: "k \<le> e" by (simp split: if_splits)
  show ?case
  proof (cases "j < length xs \<and> xs ! j \<noteq> cu CHR ''>''")
    case False
    then have "skip_attributes xs j = (j, False)"
      by (subst skip_attributes.simps) auto
    with less.prems(1) have k: "k = j" "sc = False" by simp_all
    have "skip_attributes (take e xs) j = (j, False)"
    proof (cases "j < length (take e xs)")
      case inside: True
      then have "j < length xs" "j < e" by simp_all
      with False have "take e xs ! j = cu CHR ''>''" by simp
      then show ?thesis by (subst skip_attributes.simps) simp
    next
      case outside: False
      then show ?thesis by (subst skip_attributes.simps) auto
    qed
    with k show ?thesis by simp
  next
    case True
    then have "j < length xs" by simp
    then have dec: "length xs - (j + 1) < length xs - j" by simp
    show ?thesis
    proof (cases "xs ! j = cu CHR ''/'' \<and> char_at xs (j + 1) = Some (cu CHR ''>'')")
      case slash: True
      with True have "skip_attributes xs j = (j + 2, True)"
        by (subst skip_attributes.simps) simp
      with less.prems(1) have k: "k = j + 2" "sc = True" by simp_all
      with ke have "j < e" "j + 1 < e" by simp_all
      with True slash have "skip_attributes (take e xs) j = (j + 2, True)"
        by (subst skip_attributes.simps) (simp add: char_at_take)
      with k show ?thesis by simp
    next
      case noslash: False
      with True have eq: "skip_attributes xs j = skip_attributes xs (j + 1)"
        by (subst skip_attributes.simps) auto
      with less.prems(1) have rec: "skip_attributes xs (j + 1) = (k, sc)" by simp
      from skip_attributes_ge [of "j + 1" xs] rec have "j + 1 \<le> k" by simp
      with ke have je: "j < e" by simp
      from less.hyps [OF dec rec less.prems(2)]
      have IH: "skip_attributes (take e xs) (j + 1) = (k, sc)" .
      from noslash have "\<not> (take e xs ! j = cu CHR ''/''
          \<and> char_at (take e xs) (j + 1) = Some (cu CHR ''>''))"
        using je by (auto simp: char_at_take split: if_splits)
      with True je have "skip_attributes (take e xs) j = skip_attributes (take e xs) (j + 1)"
        by (subst skip_attributes.simps) auto
      with IH show ?thesis by simp
    qed
  qed
qed

lemma slice_take:
  "b \<le> e \<Longrightarrow> slice (take e xs) a b = slice xs a b"
  by (simp add: slice_def drop_take min_def)

lemma scan_tag_take_aux:
  assumes "skip_attributes xs (read_tag_name xs tns) = (k, sc)"
    and "(if char_at xs k = Some (cu CHR ''>'') then k + 1 else k) \<le> e"
  shows "read_tag_name (take e xs) tns = read_tag_name xs tns"
    and "skip_attributes (take e xs) (read_tag_name xs tns) = (k, sc)"
    and "(char_at (take e xs) k = Some (cu CHR ''>'')) = (char_at xs k = Some (cu CHR ''>''))"
    and "slice (take e xs) tns (read_tag_name xs tns) = slice xs tns (read_tag_name xs tns)"
    and "tns \<le> e"
proof -
  from assms(2) have ke: "k \<le> e" by (simp split: if_splits)
  from assms(1) skip_attributes_ge [of "read_tag_name xs tns" xs]
  have "read_tag_name xs tns \<le> k" by simp
  with ke have re: "read_tag_name xs tns \<le> e" by simp
  then show "read_tag_name (take e xs) tns = read_tag_name xs tns"
    by (rule read_tag_name_take)
  from assms show "skip_attributes (take e xs) (read_tag_name xs tns) = (k, sc)"
    by (rule skip_attributes_take)
  from assms(2) show "(char_at (take e xs) k = Some (cu CHR ''>''))
      = (char_at xs k = Some (cu CHR ''>''))"
    by (auto simp: char_at_take split: if_splits)
  from re show "slice (take e xs) tns (read_tag_name xs tns) = slice xs tns (read_tag_name xs tns)"
    by (rule slice_take)
  from re read_tag_name_ge [of tns xs] show "tns \<le> e" by simp
qed

lemma scan_tag_take:
  assumes "tagEnd (scan_tag xs i) \<le> e"
  shows "scan_tag (take e xs) i = scan_tag xs i"
proof (cases "char_at xs (Suc i) = Some (cu CHR ''/'')")
  case True
  obtain k sc where ks: "skip_attributes xs (read_tag_name xs (Suc (Suc i))) = (k, sc)"
    by (cases "skip_attributes xs (read_tag_name xs (Suc (Suc i)))")
  with True assms have b: "(if char_at xs k = Some (cu CHR ''>'') then k + 1 else k) \<le> e"
    by (simp add: scan_tag_def Let_def)
  note aux = scan_tag_take_aux [OF ks b]
  from aux(5) have "Suc i < e" by simp
  with True have "char_at (take e xs) (Suc i) = Some (cu CHR ''/'')"
    by (simp add: char_at_take)
  with True ks aux show ?thesis
    by (simp add: scan_tag_def Let_def)
next
  case False
  obtain k sc where ks: "skip_attributes xs (read_tag_name xs (Suc i)) = (k, sc)"
    by (cases "skip_attributes xs (read_tag_name xs (Suc i))")
  with False assms have b: "(if char_at xs k = Some (cu CHR ''>'') then k + 1 else k) \<le> e"
    by (simp add: scan_tag_def Let_def)
  note aux = scan_tag_take_aux [OF ks b]
  from False have "char_at (take e xs) (Suc i) \<noteq> Some (cu CHR ''/'')"
    by (simp add: char_at_take)
  with False ks aux show ?thesis
    by (simp add: scan_tag_def Let_def)
qed


lemma tag_loop_AllClosed_after:
  "tag_loop cs content i stack ss = AllClosed s e \<Longrightarrow> i < e"
proof (induction "length content - i" arbitrary: i stack ss rule: less_induct)
  case less
  show ?case
  proof (cases "i < length content")
    case False
    with less.prems show ?thesis by (simp add: tag_loop_end)
  next
    case inside: True
    show ?thesis
    proof (cases "content ! i = cu CHR ''<''")
      case False
      with inside less.prems
      have "tag_loop cs content (i + 1) stack ss = AllClosed s e"
        by (simp add: tag_loop_skip)
      moreover from inside have "length content - (i + 1) < length content - i" by simp
      ultimately have "i + 1 < e" by (rule less.hyps [rotated])
      then show ?thesis by simp
    next
      case True
      define t where "t = scan_tag content i"
      define start where "start = (case ss of None \<Rightarrow> i | Some s \<Rightarrow> s)"
      have adv: "i < tagEnd t" unfolding t_def by (rule scan_tag_advances)
      with inside have dec: "length content - tagEnd t < length content - i" by simp
      from less.prems inside True
      consider "e = tagEnd t"
        | st where "tag_loop cs content (tagEnd t) st (Some start) = AllClosed s e"
        by (auto simp: tag_loop_tag Let_def t_def [symmetric] start_def [symmetric]
                 split: if_splits list.splits)
      then show ?thesis
      proof cases
        case 1
        with adv show ?thesis by simp
      next
        case 2
        from less.hyps [OF dec 2] adv show ?thesis by simp
      qed
    qed
  qed
qed

lemma tag_loop_take:
  "tag_loop cs xs i stack ss = AllClosed s e \<Longrightarrow>
   tag_loop cs (take e xs) i stack ss = AllClosed s e"
proof (induction "length xs - i" arbitrary: i stack ss rule: less_induct)
  case less
  from less.prems have ie: "i < e" by (rule tag_loop_AllClosed_after)
  show ?case
  proof (cases "i < length xs")
    case False
    with less.prems show ?thesis by (simp add: tag_loop_end)
  next
    case inside: True
    with ie have inside': "i < length (take e xs)" and same: "take e xs ! i = xs ! i"
      by simp_all
    show ?thesis
    proof (cases "xs ! i = cu CHR ''<''")
      case False
      with inside less.prems
      have "tag_loop cs xs (i + 1) stack ss = AllClosed s e"
        by (simp add: tag_loop_skip)
      moreover from inside have "length xs - (i + 1) < length xs - i" by simp
      ultimately have "tag_loop cs (take e xs) (i + 1) stack ss = AllClosed s e"
        by (rule less.hyps [rotated])
      with False inside' same show ?thesis by (simp add: tag_loop_skip)
    next
      case True
      define t where "t = scan_tag xs i"
      define start where "start = (case ss of None \<Rightarrow> i | Some s \<Rightarrow> s)"
      have adv: "i < tagEnd t" unfolding t_def by (rule scan_tag_advances)
      with inside have dec: "length xs - tagEnd t < length xs - i" by simp
      have rec: "tag_loop cs (take e xs) (tagEnd t) st (Some start) = AllClosed s e"
        if "tag_loop cs xs (tagEnd t) st (Some start) = AllClosed s e" for st
        using less.hyps [OF dec that] .
      from less.prems inside True
      have "tagEnd t \<le> e"
        by (auto simp: tag_loop_tag Let_def t_def [symmetric] start_def [symmetric]
                 split: if_splits list.splits dest: tag_loop_AllClosed_after)
      then have t': "scan_tag (take e xs) i = t"
        unfolding t_def by (rule scan_tag_take)
      from less.prems inside True
      have "tag_loop cs (take e xs) i stack ss = tag_loop cs xs i stack ss"
        unfolding tag_loop_tag [OF inside True] tag_loop_tag [OF inside' True [folded same]]
        by (auto simp: Let_def t' t_def [symmetric] start_def [symmetric] rec
                 split: if_splits list.splits)
      with less.prems show ?thesis by simp
    qed
  qed
qed

text \<open>The loop does not look at what stands in front of the index it starts at.\<close>

lemma char_at_append: "char_at (pre @ xs) (length pre + j) = char_at xs j"
  by (simp add: char_at_def)

lemma read_tag_name_append:
  "read_tag_name (pre @ xs) (length pre + j) = length pre + read_tag_name xs j"
proof (induction "length xs - j" arbitrary: j rule: less_induct)
  case less
  show ?case
  proof (cases "j < length xs \<and> is_name_char (xs ! j)")
    case True
    then have "j < length xs" by simp
    then have dec: "length xs - (j + 1) < length xs - j" by simp
    from True have "read_tag_name xs j = read_tag_name xs (j + 1)"
      by (subst read_tag_name.simps) simp
    moreover from True
    have "read_tag_name (pre @ xs) (length pre + j)
            = read_tag_name (pre @ xs) (length pre + (j + 1))"
      by (subst read_tag_name.simps) (simp add: nth_append)
    ultimately show ?thesis using less.hyps [OF dec] by simp
  next
    case False
    then have "read_tag_name xs j = j" by (subst read_tag_name.simps) auto
    moreover from False have "read_tag_name (pre @ xs) (length pre + j) = length pre + j"
      by (subst read_tag_name.simps) (auto simp: nth_append)
    ultimately show ?thesis by simp
  qed
qed

lemma skip_attributes_append:
  "skip_attributes (pre @ xs) (length pre + j)
     = (length pre + fst (skip_attributes xs j), snd (skip_attributes xs j))"
proof (induction "length xs - j" arbitrary: j rule: less_induct)
  case less
  show ?case
  proof (cases "j < length xs \<and> xs ! j \<noteq> cu CHR ''>''")
    case False
    then have "skip_attributes xs j = (j, False)"
      by (subst skip_attributes.simps) auto
    moreover from False have "skip_attributes (pre @ xs) (length pre + j) = (length pre + j, False)"
      by (subst skip_attributes.simps) (auto simp: nth_append)
    ultimately show ?thesis by simp
  next
    case True
    then have "j < length xs" by simp
    then have dec: "length xs - (j + 1) < length xs - j" by simp
    have ca: "char_at (pre @ xs) (length pre + j + 1) = char_at xs (j + 1)"
      using char_at_append [of pre xs "j + 1"] by (simp add: add.assoc)
    show ?thesis
    proof (cases "xs ! j = cu CHR ''/'' \<and> char_at xs (j + 1) = Some (cu CHR ''>'')")
      case slash: True
      with True have "skip_attributes xs j = (j + 2, True)"
        by (subst skip_attributes.simps) simp
      moreover from True slash ca
      have "skip_attributes (pre @ xs) (length pre + j) = (length pre + j + 2, True)"
        by (subst skip_attributes.simps) (simp add: nth_append)
      ultimately show ?thesis by simp
    next
      case noslash: False
      with True have "skip_attributes xs j = skip_attributes xs (j + 1)"
        by (subst skip_attributes.simps) auto
      moreover from True noslash ca
      have "skip_attributes (pre @ xs) (length pre + j)
              = skip_attributes (pre @ xs) (length pre + (j + 1))"
        by (subst skip_attributes.simps) (auto simp: nth_append)
      ultimately show ?thesis using less.hyps [OF dec] by simp
    qed
  qed
qed

lemma slice_append:
  "slice (pre @ xs) (length pre + a) (length pre + b) = slice xs a b"
  by (simp add: slice_def)

lemma scan_tag_append:
  "scan_tag (pre @ xs) (length pre + i) =
     \<lparr> isClosing = isClosing (scan_tag xs i), tagNameRaw = tagNameRaw (scan_tag xs i),
       nameEnd = length pre + nameEnd (scan_tag xs i),
       isSelfClosing = isSelfClosing (scan_tag xs i),
       tagEnd = length pre + tagEnd (scan_tag xs i) \<rparr>"
proof -
  have c1: "char_at (pre @ xs) (Suc (length pre + i)) = char_at xs (Suc i)"
    using char_at_append [of pre xs "Suc i"] by simp
  have r1: "read_tag_name (pre @ xs) (Suc (length pre + i)) = length pre + read_tag_name xs (Suc i)"
    using read_tag_name_append [of pre xs "Suc i"] by simp
  have r2: "read_tag_name (pre @ xs) (Suc (Suc (length pre + i)))
              = length pre + read_tag_name xs (Suc (Suc i))"
    using read_tag_name_append [of pre xs "Suc (Suc i)"] by simp
  have sl1: "slice (pre @ xs) (Suc (length pre + i)) (length pre + b) = slice xs (Suc i) b"
    for b using slice_append [of pre xs "Suc i" b] by simp
  have sl2: "slice (pre @ xs) (Suc (Suc (length pre + i))) (length pre + b)
               = slice xs (Suc (Suc i)) b"
    for b using slice_append [of pre xs "Suc (Suc i)" b] by simp
  show ?thesis
  proof (cases "char_at xs (Suc i) = Some (cu CHR ''/'')")
    case True
    then show ?thesis
      by (simp add: scan_tag_def Let_def split_beta c1 r2 sl2 skip_attributes_append
            char_at_append)
  next
    case False
    then show ?thesis
      by (simp add: scan_tag_def Let_def split_beta c1 r1 sl1 skip_attributes_append
            char_at_append)
  qed
qed

lemma shift_exit_simps:
  "shift_exit n (InvalidTagName ss i) = InvalidTagName (map_option (\<lambda>s. n + s) ss) (n + i)"
  "shift_exit n (MismatchedClosing popped name ss i)
     = MismatchedClosing popped name (map_option (\<lambda>s. n + s) ss) (n + i)"
  "shift_exit n (AllClosed s i) = AllClosed (n + s) (n + i)"
  "shift_exit n (EndOfInput stack ss) = EndOfInput stack (map_option (\<lambda>s. n + s) ss)"
  by (simp_all add: shift_exit_def)

lemma tag_loop_append:
  "tag_loop cs (pre @ xs) (length pre + i) stack (map_option (\<lambda>s. length pre + s) ss)
     = shift_exit (length pre) (tag_loop cs xs i stack ss)"
proof (induction "length xs - i" arbitrary: i stack ss rule: less_induct)
  case less
  show ?case
  proof (cases "i < length xs")
    case False
    then show ?thesis by (simp add: tag_loop_end shift_exit_simps)
  next
    case inside: True
    then have inside': "length pre + i < length (pre @ xs)"
      and same: "(pre @ xs) ! (length pre + i) = xs ! i"
      by (simp_all add: nth_append)
    show ?thesis
    proof (cases "xs ! i = cu CHR ''<''")
      case False
      from inside have "length xs - (i + 1) < length xs - i" by simp
      then have "tag_loop cs (pre @ xs) (length pre + (i + 1)) stack
                   (map_option (\<lambda>s. length pre + s) ss)
                 = shift_exit (length pre) (tag_loop cs xs (i + 1) stack ss)"
        by (rule less.hyps)
      moreover from False inside
      have "tag_loop cs xs i stack ss = tag_loop cs xs (i + 1) stack ss"
        by (simp add: tag_loop_skip)
      moreover from False inside' same
      have "tag_loop cs (pre @ xs) (length pre + i) stack (map_option (\<lambda>s. length pre + s) ss)
              = tag_loop cs (pre @ xs) (length pre + i + 1) stack
                  (map_option (\<lambda>s. length pre + s) ss)"
        by (intro tag_loop_skip) simp_all
      ultimately show ?thesis by (simp add: add.assoc)
    next
      case True
      define t where "t = scan_tag xs i"
      define start where "start = (case ss of None \<Rightarrow> i | Some s \<Rightarrow> s)"
      have adv: "i < tagEnd t" unfolding t_def by (rule scan_tag_advances)
      with inside have dec: "length xs - tagEnd t < length xs - i" by simp
      have rec: "tag_loop cs (pre @ xs) (length pre + tagEnd t) st (Some (length pre + start))
                   = shift_exit (length pre) (tag_loop cs xs (tagEnd t) st (Some start))" for st
        using less.hyps [OF dec, of st "Some start"] by simp
      have start': "(case map_option (\<lambda>s. length pre + s) ss of
                       None \<Rightarrow> length pre + i | Some s \<Rightarrow> s) = length pre + start"
        by (simp add: start_def split: option.splits)
      from True same have lt': "(pre @ xs) ! (length pre + i) = cu CHR ''<''" by simp
      define name where "name = tag_name_of cs t"
      have name': "tag_name_of cs \<lparr> isClosing = a, tagNameRaw = tagNameRaw t, nameEnd = b,
                                    isSelfClosing = c, tagEnd = d \<rparr> = name" for a b c d
        by (simp add: name_def tag_name_of_def)
      show ?thesis
        unfolding tag_loop_tag [OF inside True] tag_loop_tag [OF inside' lt'] start'
          scan_tag_append
        by (simp add: Let_def t_def [symmetric] start_def [symmetric] rec name'
              name_def [symmetric] shift_exit_simps split: list.splits)
    qed
  qed
qed

lemma tag_loop_from_start:
  "tag_loop cs xs i stack None = AllClosed s e \<Longrightarrow>
   i \<le> s \<and> s \<le> length xs \<and> tag_loop cs xs s stack None = AllClosed s e"
proof (induction "length xs - i" arbitrary: i rule: less_induct)
  case less
  show ?case
  proof (cases "i < length xs")
    case False
    with less.prems show ?thesis by (simp add: tag_loop_end)
  next
    case inside: True
    show ?thesis
    proof (cases "xs ! i = cu CHR ''<''")
      case False
      with inside less.prems
      have "tag_loop cs xs (i + 1) stack None = AllClosed s e"
        by (simp add: tag_loop_skip)
      moreover from inside have "length xs - (i + 1) < length xs - i" by simp
      ultimately have "i + 1 \<le> s \<and> s \<le> length xs \<and> tag_loop cs xs s stack None = AllClosed s e"
        by (rule less.hyps [rotated])
      then show ?thesis by simp
    next
      case True
      have "exit_start (tag_loop cs xs i stack None) = Some s"
        using less.prems by (simp add: exit_start_def)
      then have "s = first_lt xs i" by (rule tag_loop_finds_start [THEN conjunct1])
      with inside True have "s = i" by (simp add: first_lt_here)
      with less.prems inside show ?thesis by simp
    qed
  qed
qed

lemma shift_exit_AllClosed:
  "shift_exit n x = AllClosed s e \<Longrightarrow> x = AllClosed (s - n) (e - n) \<and> n \<le> s \<and> n \<le> e"
  by (auto simp: shift_exit_def split: tag_exit.splits)

lemma tag_loop_drop:
  assumes "tag_loop cs xs 0 stack None = AllClosed s e"
  shows "tag_loop cs (drop s xs) 0 stack None = AllClosed 0 (e - s)"
proof -
  from assms have s: "s \<le> length xs" and at: "tag_loop cs xs s stack None = AllClosed s e"
    by (auto dest: tag_loop_from_start)
  from s have len: "length (take s xs) = s" by simp
  have "tag_loop cs (take s xs @ drop s xs) (length (take s xs) + 0) stack
          (map_option (\<lambda>k. length (take s xs) + k) None)
        = shift_exit (length (take s xs)) (tag_loop cs (drop s xs) 0 stack None)"
    by (rule tag_loop_append)
  with at len have "shift_exit s (tag_loop cs (drop s xs) 0 stack None) = AllClosed s e"
    by simp
  then show ?thesis by (auto dest: shift_exit_AllClosed)
qed

section \<open>Feeding an engine its own data\<close>

text \<open>The tag engine accepts its own data again, unchanged.\<close>

lemma snipByTag_idempotent:
  assumes "status (snipByTag content cs) = Success"
  shows "snipByTag (data (snipByTag content cs)) cs
           = \<lparr> status = Success, comments = js ''Valid tag structure found.'',
               data = data (snipByTag content cs), raw = JSNull \<rparr>"
proof -
  from assms obtain input s e where c: "content = JSString input" and ne: "input \<noteq> []"
    and loop: "tag_loop cs input 0 [] None = AllClosed s e"
    by (auto simp: snipByTag_def Let_def split: jsval.splits if_splits tag_exit.splits
          list.splits option.splits)
  from loop have s: "s \<le> length input"
    and at: "tag_loop cs input s [] None = AllClosed s e"
    by (auto dest: tag_loop_from_start)
  from at have "s < e" by (rule tag_loop_AllClosed_after)
  from at have "s < length input"
    by (cases "s < length input") (simp_all add: tag_loop_end)
  define d where "d = slice input s e"
  have d: "d = take (e - s) (drop s input)" by (simp add: d_def slice_def)
  from \<open>s < e\<close> \<open>s < length input\<close> have dne: "d \<noteq> []" by (simp add: d)
  from loop have "tag_loop cs (drop s input) 0 [] None = AllClosed 0 (e - s)"
    by (rule tag_loop_drop)
  then have "tag_loop cs (take (e - s) (drop s input)) 0 [] None = AllClosed 0 (e - s)"
    by (rule tag_loop_take)
  then have again: "tag_loop cs d 0 [] None = AllClosed 0 (e - s)" by (simp add: d)
  have out: "snipByTag content cs
               = \<lparr> status = Success, comments = js ''Valid tag structure found.'',
                   data = JSString d, raw = JSNull \<rparr>"
    using c ne loop by (simp add: snipByTag_def Let_def d_def)
  have "slice d 0 (e - s) = d" by (simp add: slice_def d)
  with dne again show ?thesis
    unfolding out by (simp add: snipByTag_def Let_def)
qed

text \<open>
  The JSON engine on a text that is one structure from its first code unit to its last:
  the fast path decodes the whole of it.
\<close>

lemma PAIRS_opener:
  "PAIRS opener = Some closer \<Longrightarrow>
   (opener = cu CHR ''{'' \<and> closer = cu CHR ''}'') \<or> (opener = cu CHR ''['' \<and> closer = cu CHR '']'')"
  by (auto simp: PAIRS_def split: if_splits)

lemma locate_start_at_opener:
  assumes "PAIRS opener = Some closer"
  shows "locate_start (opener # rest) = Some 0"
  using PAIRS_opener [OF assms]
  by (auto simp: locate_start_def indexOf_def Let_def split: option.splits)

lemma lastIndexOf_at_end: "lastIndexOf (xs @ [c]) c = Some (length xs)"
  by (simp add: lastIndexOf_def)

lemma fast_path_whole_text:
  assumes "PAIRS opener = Some closer" and "parse (opener # middle @ [closer]) = Inr v"
  shows "fast_path parse (opener # middle @ [closer]) 0 = Some v"
proof -
  have "lastIndexOf (opener # middle @ [closer]) closer = Some (Suc (length middle))"
    using lastIndexOf_at_end [of "opener # middle" closer] by simp
  with assms show ?thesis by (simp add: fast_path_def slice_def)
qed

lemma snipJson_accepts_bracketed:
  assumes "PAIRS opener = Some closer"
    and "(parse :: jsstring \<Rightarrow> jsstring + 'v) (opener # middle @ [closer]) = Inr v"
    and "sanitizeContent (JSString (opener # middle @ [closer]) :: 'v jsval)
           = Inr (opener # middle @ [closer])"
  shows "snipJson parse (JSString (opener # middle @ [closer])) =
           Inr \<lparr> status = Success, comments = js ''JSON successfully extracted and parsed.'',
                 data = JSObject v, raw = JSNull \<rparr>"
  using assms(3) locate_start_at_opener [OF assms(1), of "middle @ [closer]"]
    fast_path_whole_text [of opener closer parse middle v, OF assms(1,2)]
  by (simp add: snipJson_def extract_json_def)

lemma snipJson_src_accepts_bracketed:
  assumes "PAIRS opener = Some closer"
    and "(parse :: jsstring \<Rightarrow> jsstring + 'v) (opener # middle @ [closer]) = Inr v"
    and "sanitizeContent_src (JSString (opener # middle @ [closer]) :: 'v jsval)
           = Inr (opener # middle @ [closer])"
  shows "snipJson_src parse (JSString (opener # middle @ [closer])) =
           Inr \<lparr> status = Success, comments = js ''JSON successfully extracted and parsed.'',
                 data = JSObject v, raw = JSNull \<rparr>"
proof -
  have "lastIndexOf (opener # middle @ [closer]) closer = Some (Suc (length middle))"
    using lastIndexOf_at_end [of "opener # middle" closer] by simp
  with assms locate_start_at_opener [OF assms(1), of "middle @ [closer]"] show ?thesis
    by (simp add: snipJson_src_def extract_json_src_def Let_def slice_def)
qed

text \<open>
  C8 as the specification states it: an engine that returned Success returns Success
  again, with equivalent data, on its own data written back as text. The JSON engine
  does not. Handed \<^verbatim>\<open>["'"+'+"]\<close>, both copies strip the artifact \<^verbatim>\<open>"+'\<close> and decode
  \<^verbatim>\<open>["'+"]\<close>: Success, the data an array of the one string \<^verbatim>\<open>'+\<close>. The encoder writes
  that array as \<^verbatim>\<open>["'+"]\<close>, which decodes to it. Handed this text, the engine strips the
  artifact \<^verbatim>\<open>'+"\<close> in it, finds \<^verbatim>\<open>["]\<close> balanced and undecodable, and returns Check
  without data.
\<close>

theorem own_data_accepted_again_counterexample:
  "snipJson JSON_parse (JSString [0x5B, 0x22, 0x27, 0x22, 0x2B, 0x27, 0x2B, 0x22, 0x5D]) =
     Inr \<lparr> status = Success, comments = js ''JSON successfully extracted and parsed.'',
           data = JSObject (JArr [JStr [0x27, 0x2B]]), raw = JSNull \<rparr>
   \<and> snipJson_src JSON_parse (JSString [0x5B, 0x22, 0x27, 0x22, 0x2B, 0x27, 0x2B, 0x22, 0x5D]) =
     Inr \<lparr> status = Success, comments = js ''JSON successfully extracted and parsed.'',
           data = JSObject (JArr [JStr [0x27, 0x2B]]), raw = JSNull \<rparr>
   \<and> JSON_stringify (JArr [JStr [0x27, 0x2B]]) = [0x5B, 0x22, 0x27, 0x2B, 0x22, 0x5D]
   \<and> JSON_parse (JSON_stringify (JArr [JStr [0x27, 0x2B]])) = Inr (JArr [JStr [0x27, 0x2B]])
   \<and> snipJson JSON_parse (JSString (JSON_stringify (JArr [JStr [0x27, 0x2B]]))) =
     Inr \<lparr> status = Check,
           comments = js ''Structurally valid JSON failed to parse: ''
                      @ js ''Unexpected token or end of JSON input'',
           data = JSNull, raw = JSString [0x5B, 0x22, 0x5D] \<rparr>
   \<and> snipJson_src JSON_parse (JSString (JSON_stringify (JArr [JStr [0x27, 0x2B]]))) =
     Inr \<lparr> status = Check,
           comments = js ''Extracted candidate JSON passed bracket validation but failed to parse. Check result.raw. Error : ''
                      @ js ''Unexpected token or end of JSON input'',
           data = JSNull, raw = JSString [0x5B, 0x22, 0x5D] \<rparr>"
proof (intro conjI)
  show "snipJson JSON_parse (JSString [0x5B, 0x22, 0x27, 0x22, 0x2B, 0x27, 0x2B, 0x22, 0x5D]) =
     Inr \<lparr> status = Success, comments = js ''JSON successfully extracted and parsed.'',
           data = JSObject (JArr [JStr [0x27, 0x2B]]), raw = JSNull \<rparr>" by code_simp
  show "snipJson_src JSON_parse (JSString [0x5B, 0x22, 0x27, 0x22, 0x2B, 0x27, 0x2B, 0x22, 0x5D]) =
     Inr \<lparr> status = Success, comments = js ''JSON successfully extracted and parsed.'',
           data = JSObject (JArr [JStr [0x27, 0x2B]]), raw = JSNull \<rparr>" by code_simp
  show "JSON_stringify (JArr [JStr [0x27, 0x2B]]) = [0x5B, 0x22, 0x27, 0x2B, 0x22, 0x5D]"
    by code_simp
  show "JSON_parse (JSON_stringify (JArr [JStr [0x27, 0x2B]])) = Inr (JArr [JStr [0x27, 0x2B]])"
    by code_simp
  show "snipJson JSON_parse (JSString (JSON_stringify (JArr [JStr [0x27, 0x2B]]))) =
     Inr \<lparr> status = Check,
           comments = js ''Structurally valid JSON failed to parse: ''
                      @ js ''Unexpected token or end of JSON input'',
           data = JSNull, raw = JSString [0x5B, 0x22, 0x5D] \<rparr>" by code_simp
  show "snipJson_src JSON_parse (JSString (JSON_stringify (JArr [JStr [0x27, 0x2B]]))) =
     Inr \<lparr> status = Check,
           comments = js ''Extracted candidate JSON passed bracket validation but failed to parse. Check result.raw. Error : ''
                      @ js ''Unexpected token or end of JSON input'',
           data = JSNull, raw = JSString [0x5B, 0x22, 0x5D] \<rparr>" by code_simp
qed

text \<open>
  C8 as amended. The tag engine is idempotent: whenever \<^verbatim>\<open>snipByTag\<close> returns Success, it
  returns Success with the same data on that data. For the JSON engine, let a first run
  return Success with the value \<open>v\<close>, and let \<open>stringify v\<close> be the text the encoder
  writes for \<open>v\<close>. If that text starts with an opening delimiter and ends with the closing
  delimiter of that opening one, if the engine's own clean-up leaves it as it is, and
  if the decoder reads it as \<open>v'\<close>, then the second run returns Success with \<open>v'\<close>: what
  the engine returns is what the decoder makes of the whole text. The data of the second
  run is the data of the first when the decoder reads back what the encoder wrote,
  \<open>v' = v\<close>. Both copies of the engine behave so, each with its own clean-up.
\<close>

theorem own_data_accepted_again:
  "(status (snipByTag content cs) = Success \<longrightarrow>
      snipByTag (data (snipByTag content cs)) cs =
        \<lparr> status = Success, comments = js ''Valid tag structure found.'',
          data = data (snipByTag content cs), raw = JSNull \<rparr>)
   \<and> (snipJson parse input = Inr r \<and> status r = Success \<and> data r = JSObject v
        \<and> stringify v = opener # middle @ [closer] \<and> PAIRS opener = Some closer
        \<and> sanitizeContent (JSString (stringify v) :: 'v jsval) = Inr (stringify v)
        \<and> (parse :: jsstring \<Rightarrow> jsstring + 'v) (stringify v) = Inr v'
      \<longrightarrow> snipJson parse (JSString (stringify v)) =
            Inr \<lparr> status = Success, comments = js ''JSON successfully extracted and parsed.'',
                  data = JSObject v', raw = JSNull \<rparr>)
   \<and> (snipJson_src parse input = Inr r \<and> status r = Success \<and> data r = JSObject v
        \<and> stringify v = opener # middle @ [closer] \<and> PAIRS opener = Some closer
        \<and> sanitizeContent_src (JSString (stringify v) :: 'v jsval) = Inr (stringify v)
        \<and> parse (stringify v) = Inr v'
      \<longrightarrow> snipJson_src parse (JSString (stringify v)) =
            Inr \<lparr> status = Success, comments = js ''JSON successfully extracted and parsed.'',
                  data = JSObject v', raw = JSNull \<rparr>)"
proof (intro conjI impI; (elim conjE)?)
  assume "status (snipByTag content cs) = Success"
  then show "snipByTag (data (snipByTag content cs)) cs =
        \<lparr> status = Success, comments = js ''Valid tag structure found.'',
          data = data (snipByTag content cs), raw = JSNull \<rparr>"
    by (rule snipByTag_idempotent)
next
  assume e: "stringify v = opener # middle @ [closer]" and "PAIRS opener = Some closer"
    and "parse (stringify v) = Inr v'"
    and "sanitizeContent (JSString (stringify v) :: 'v jsval) = Inr (stringify v)"
  then show "snipJson parse (JSString (stringify v)) =
            Inr \<lparr> status = Success, comments = js ''JSON successfully extracted and parsed.'',
                  data = JSObject v', raw = JSNull \<rparr>"
    unfolding e by (intro snipJson_accepts_bracketed)
next
  assume e: "stringify v = opener # middle @ [closer]" and "PAIRS opener = Some closer"
    and "parse (stringify v) = Inr v'"
    and "sanitizeContent_src (JSString (stringify v) :: 'v jsval) = Inr (stringify v)"
  then show "snipJson_src parse (JSString (stringify v)) =
            Inr \<lparr> status = Success, comments = js ''JSON successfully extracted and parsed.'',
                  data = JSObject v', raw = JSNull \<rparr>"
    unfolding e by (intro snipJson_src_accepts_bracketed)
qed

theorem own_data_accepted_again_witness:
  "snipByTag (JSString (js ''see <b>this <i>one</i></b> here'') :: json jsval) False =
     \<lparr> status = Success, comments = js ''Valid tag structure found.'',
       data = JSString (js ''<b>this <i>one</i></b>''), raw = JSNull \<rparr>
   \<and> snipByTag (JSString (js ''<b>this <i>one</i></b>'') :: json jsval) False =
     \<lparr> status = Success, comments = js ''Valid tag structure found.'',
       data = JSString (js ''<b>this <i>one</i></b>''), raw = JSNull \<rparr>
   \<and> snipJson JSON_parse (JSString (js ''Here it is: {\"a\": [1, 2]} - done'')) =
     Inr \<lparr> status = Success, comments = js ''JSON successfully extracted and parsed.'',
           data = JSObject (JObj [(js ''a'', JArr [JNum 1, JNum 2])]), raw = JSNull \<rparr>
   \<and> snipJson_src JSON_parse (JSString (js ''Here it is: {\"a\": [1, 2]} - done'')) =
     Inr \<lparr> status = Success, comments = js ''JSON successfully extracted and parsed.'',
           data = JSObject (JObj [(js ''a'', JArr [JNum 1, JNum 2])]), raw = JSNull \<rparr>
   \<and> JSON_stringify (JObj [(js ''a'', JArr [JNum 1, JNum 2])]) = js ''{\"a\":[1,2]}''
   \<and> PAIRS (cu CHR ''{'') = Some (cu CHR ''}'')
   \<and> sanitizeContent (JSString (JSON_stringify (JObj [(js ''a'', JArr [JNum 1, JNum 2])])) :: json jsval)
       = Inr (JSON_stringify (JObj [(js ''a'', JArr [JNum 1, JNum 2])]))
   \<and> sanitizeContent_src (JSString (JSON_stringify (JObj [(js ''a'', JArr [JNum 1, JNum 2])])) :: json jsval)
       = Inr (JSON_stringify (JObj [(js ''a'', JArr [JNum 1, JNum 2])]))
   \<and> JSON_parse (JSON_stringify (JObj [(js ''a'', JArr [JNum 1, JNum 2])])) = Inr (JObj [(js ''a'', JArr [JNum 1, JNum 2])])
   \<and> snipJson JSON_parse (JSString (JSON_stringify (JObj [(js ''a'', JArr [JNum 1, JNum 2])]))) =
     Inr \<lparr> status = Success, comments = js ''JSON successfully extracted and parsed.'',
           data = JSObject (JObj [(js ''a'', JArr [JNum 1, JNum 2])]), raw = JSNull \<rparr>
   \<and> snipJson_src JSON_parse (JSString (JSON_stringify (JObj [(js ''a'', JArr [JNum 1, JNum 2])]))) =
     Inr \<lparr> status = Success, comments = js ''JSON successfully extracted and parsed.'',
           data = JSObject (JObj [(js ''a'', JArr [JNum 1, JNum 2])]), raw = JSNull \<rparr>"
proof -
  let ?v = "JObj [(js ''a'', JArr [JNum 1, JNum 2])]"
  let ?r = "\<lparr> status = Success, comments = js ''JSON successfully extracted and parsed.'',
           data = JSObject (JObj [(js ''a'', JArr [JNum 1, JNum 2])]), raw = JSNull \<rparr> :: json result"
  have first: "snipByTag (JSString (js ''see <b>this <i>one</i></b> here'') :: json jsval) False =
     \<lparr> status = Success, comments = js ''Valid tag structure found.'',
       data = JSString (js ''<b>this <i>one</i></b>''), raw = JSNull \<rparr>" by code_simp
  have run: "snipJson JSON_parse (JSString (js ''Here it is: {\"a\": [1, 2]} - done'')) = Inr ?r" by code_simp
  have run_src: "snipJson_src JSON_parse (JSString (js ''Here it is: {\"a\": [1, 2]} - done'')) = Inr ?r" by code_simp
  have st: "status ?r = Success" and d: "data ?r = JSObject ?v" by simp_all
  have enc: "JSON_stringify ?v = js ''{\"a\":[1,2]}''" by code_simp
  have shape: "JSON_stringify ?v = cu CHR ''{'' # js ''\"a\":[1,2]'' @ [cu CHR ''}'']"
    by code_simp
  have pairs: "PAIRS (cu CHR ''{'') = Some (cu CHR ''}'')" by code_simp
  have fixed: "sanitizeContent (JSString (JSON_stringify ?v) :: json jsval)
                 = Inr (JSON_stringify ?v)" by code_simp
  have fixed_src: "sanitizeContent_src (JSString (JSON_stringify ?v) :: json jsval)
                 = Inr (JSON_stringify ?v)" by code_simp
  have dec: "JSON_parse (JSON_stringify ?v) = Inr ?v" by code_simp
  note inst = own_data_accepted_again
    [where content = "JSString (js ''see <b>this <i>one</i></b> here'') :: json jsval" and cs = False
       and parse = JSON_parse and stringify = JSON_stringify
       and input = "JSString (js ''Here it is: {\"a\": [1, 2]} - done'')" and r = ?r and v = ?v and v' = ?v
       and opener = "cu CHR ''{''" and closer = "cu CHR ''}''"
       and middle = "js ''\"a\":[1,2]''"]
  from first have tag_ok: "status (snipByTag (JSString (js ''see <b>this <i>one</i></b> here'') :: json jsval) False) = Success"
    by simp
  note again = inst [THEN conjunct1, THEN mp, OF tag_ok, unfolded first result.select_convs]
  note again_json = inst [THEN conjunct2, THEN conjunct1, THEN mp,
    OF conjI [OF run conjI [OF st conjI [OF d conjI [OF shape conjI [OF pairs
       conjI [OF fixed dec]]]]]]]
  note again_src = inst [THEN conjunct2, THEN conjunct2, THEN mp,
    OF conjI [OF run_src conjI [OF st conjI [OF d conjI [OF shape conjI [OF pairs
       conjI [OF fixed_src dec]]]]]]]
  from first again run run_src enc pairs fixed fixed_src dec again_json again_src
  show ?thesis by (intro conjI)
qed

end
